theory Spec2Isabelle
  imports Main
begin

section \<open>The snake game of \<^verbatim>\<open>snake.py\<close>\<close>

text \<open>
  The game state machine of \<^verbatim>\<open>snake.py\<close>: initial placement, food placement, key
  handling and one iteration of the game loop of \<^verbatim>\<open>main\<close>.  Drawing, sound and frame
  pacing (\<^verbatim>\<open>draw_*\<close>, \<^verbatim>\<open>play_sound\<close>, \<^verbatim>\<open>clock.tick\<close>) change no game variable and are
  left out.  The clock readings of \<^verbatim>\<open>pygame.time.get_ticks\<close>, the events of
  \<^verbatim>\<open>pygame.event.get\<close> and the numbers drawn by \<^verbatim>\<open>random\<close> are inputs.
\<close>

subsection \<open>Configuration\<close>

type_synonym cell = "int \<times> int"

definition WINDOW_WIDTH :: int where "WINDOW_WIDTH = 600"
definition WINDOW_HEIGHT :: int where "WINDOW_HEIGHT = 400"
definition CELL_SIZE :: int where "CELL_SIZE = 20"
definition START_LENGTH :: int where "START_LENGTH = 5"

definition GRID_WIDTH :: int where "GRID_WIDTH = WINDOW_WIDTH div CELL_SIZE"
definition GRID_HEIGHT :: int where "GRID_HEIGHT = WINDOW_HEIGHT div CELL_SIZE"

datatype error = ValueError | IndexError

subsection \<open>Initial placement\<close>

text \<open>
  \<^verbatim>\<open>create_initial_snake(length)\<close>: raises \<^verbatim>\<open>ValueError\<close> when the length does not fit,
  otherwise the list \<^verbatim>\<open>[(head_x - i, head_y) for i in range(length)]\<close>.
\<close>

definition create_initial_snake :: "int \<Rightarrow> error + cell list" where
  "create_initial_snake len =
     (if len < 1 \<or> len > GRID_WIDTH then Inl ValueError
      else
        let tail_x = (GRID_WIDTH - len) div 2;
            head_x = tail_x + len - 1;
            head_y = GRID_HEIGHT div 2
        in Inr (map (\<lambda>i. (head_x - i, head_y)) [0..len - 1]))"

subsection \<open>Food placement\<close>

text \<open>
  The random generator is a sequence \<open>rng\<close> of raw draws and a cursor into it.
  \<^verbatim>\<open>random.randint(a, b)\<close> maps one raw draw into \<open>[a, b]\<close>.
\<close>

definition randint :: "int \<Rightarrow> int \<Rightarrow> nat \<Rightarrow> int" where
  "randint a b r = a + int r mod (b - a + 1)"

text \<open>
  \<open>random_cell\<close> is the pair drawn at line 147, its first component drawn first.
  \<^verbatim>\<open>random_food_position(snake)\<close> is a \<^verbatim>\<open>while True\<close> loop that redraws until the cell
  is free; \<open>None\<close> is the loop that never returns.  The result carries the new cursor.
\<close>

definition random_cell :: "(nat \<Rightarrow> nat) \<Rightarrow> nat \<Rightarrow> cell" where
  "random_cell rng i =
     (randint 0 (GRID_WIDTH - 1) (rng i), randint 0 (GRID_HEIGHT - 1) (rng (i + 1)))"

partial_function (option) random_food_position ::
  "(nat \<Rightarrow> nat) \<Rightarrow> nat \<Rightarrow> cell list \<Rightarrow> (cell \<times> nat) option" where
  "random_food_position rng i snake =
     (let pos = random_cell rng i
      in if pos \<notin> set snake then Some (pos, i + 2)
         else random_food_position rng (i + 2) snake)"

subsection \<open>Round state\<close>

record effect =
  pos :: cell
  duration_ms :: int
  remaining_ms :: int

text \<open>
  The local variables of \<^verbatim>\<open>main\<close>.  \<open>best_score\<close> and \<open>best_size\<close> live outside the
  round loop and are carried from one round to the next; \<open>rng_pos\<close> is the cursor of
  the random generator.
\<close>

record game =
  snake :: "cell list"
  food :: cell
  score :: int
  paused :: bool
  restart_requested :: bool
  game_over_reason :: string
  level :: int
  direction :: "cell option"
  next_direction :: "cell option"
  show_help :: bool
  show_debug :: bool
  level_toast_remaining_ms :: int
  size_anim_remaining_ms :: int
  food_pop_effects :: "effect list"
  last_tick_ms :: int
  running :: bool
  best_score :: int
  best_size :: int
  rng_pos :: nat

subsection \<open>Events\<close>

datatype key =
  K_ESCAPE | K_r | K_1 | K_2 | K_3 | K_h | K_d | K_p
  | K_UP | K_DOWN | K_LEFT | K_RIGHT | K_OTHER

datatype event = QUIT | KEYDOWN key | OTHER_EVENT

text \<open>What a piece of the loop body does next: go on, leave through \<^verbatim>\<open>sys.exit\<close>, or raise.\<close>

datatype 'a outcome = Done 'a | Exit | Raise error

fun key_to_level :: "key \<Rightarrow> int option" where
  "key_to_level K_1 = Some 1"
| "key_to_level K_2 = Some 2"
| "key_to_level K_3 = Some 3"
| "key_to_level _ = None"

fun key_to_dir :: "key \<Rightarrow> cell option" where
  "key_to_dir K_UP = Some (0, -1)"
| "key_to_dir K_DOWN = Some (0, 1)"
| "key_to_dir K_LEFT = Some (-1, 0)"
| "key_to_dir K_RIGHT = Some (1, 0)"
| "key_to_dir _ = None"

text \<open>
  The arrow-key branch (lines 504 to 523): \<^verbatim>\<open>snake[0]\<close> raises \<^verbatim>\<open>IndexError\<close> on an
  empty list, \<^verbatim>\<open>snake[1:]\<close> is the tail of the list.
\<close>

definition handle_direction :: "cell \<Rightarrow> game \<Rightarrow> game outcome" where
  "handle_direction candidate g =
     (case direction g of
        None \<Rightarrow>
          (case snake g of
             [] \<Rightarrow> Raise IndexError
           | (hx, hy) # rest \<Rightarrow>
               let nx = hx + fst candidate; ny = hy + snd candidate;
                   in_bounds = (0 \<le> nx \<and> nx < GRID_WIDTH \<and> 0 \<le> ny \<and> ny < GRID_HEIGHT)
               in if in_bounds \<and> (nx, ny) \<notin> set rest
                  then Done (g\<lparr>next_direction := Some candidate\<rparr>)
                  else Done g)
      | Some d \<Rightarrow>
          let opposite = (- fst d, - snd d)
          in if candidate \<noteq> opposite then Done (g\<lparr>next_direction := Some candidate\<rparr>)
             else Done g)"

text \<open>One event of the \<^verbatim>\<open>for event in pygame.event.get()\<close> loop (lines 481 to 523).\<close>

definition handle_event :: "event \<Rightarrow> game \<Rightarrow> game outcome" where
  "handle_event e g =
     (case e of
        QUIT \<Rightarrow> Exit
      | OTHER_EVENT \<Rightarrow> Done g
      | KEYDOWN k \<Rightarrow>
          if k = K_ESCAPE then Exit
          else if k = K_r then Done (g\<lparr>restart_requested := True\<rparr>)
          else if k \<in> {K_1, K_2, K_3} then
            Done (g\<lparr>level := the (key_to_level k), level_toast_remaining_ms := 1000\<rparr>)
          else if k = K_h then Done (g\<lparr>show_help := \<not> show_help g\<rparr>)
          else if k = K_d then Done (g\<lparr>show_debug := \<not> show_debug g\<rparr>)
          else if k = K_p then Done (g\<lparr>paused := \<not> paused g\<rparr>)
          else if k \<in> {K_UP, K_DOWN, K_LEFT, K_RIGHT} then
            handle_direction (the (key_to_dir k)) g
          else Done g)"

fun handle_events :: "event list \<Rightarrow> game \<Rightarrow> game outcome" where
  "handle_events [] g = Done g"
| "handle_events (e # es) g =
     (case handle_event e g of
        Done g' \<Rightarrow> handle_events es g'
      | Exit \<Rightarrow> Exit
      | Raise err \<Rightarrow> Raise err)"

subsection \<open>One iteration of the game loop\<close>

text \<open>
  How an iteration of \<^verbatim>\<open>while running\<close> ends: the loop goes on (\<^verbatim>\<open>continue\<close> or the end
  of the body), is left by \<^verbatim>\<open>break\<close>, the process exits, or an exception escapes.
\<close>

datatype frame_result = Next game | Break game | Exited | Raised error

text \<open>The countdown of the transient timers (lines 589 to 595).\<close>

definition tick_timers :: "int \<Rightarrow> game \<Rightarrow> game" where
  "tick_timers dt_ms g =
     g\<lparr>level_toast_remaining_ms :=
         (if level_toast_remaining_ms g > 0 then max 0 (level_toast_remaining_ms g - dt_ms)
          else level_toast_remaining_ms g),
       size_anim_remaining_ms :=
         (if size_anim_remaining_ms g > 0 then max 0 (size_anim_remaining_ms g - dt_ms)
          else size_anim_remaining_ms g),
       food_pop_effects :=
         filter (\<lambda>e. remaining_ms e > 0)
           (map (\<lambda>e. e\<lparr>remaining_ms := max 0 (remaining_ms e - dt_ms)\<rparr>) (food_pop_effects g))\<rparr>"

text \<open>
  The movement step (lines 597 to 639) for the active direction \<open>(dx, dy)\<close>.
  \<^verbatim>\<open>snake[:-1]\<close> is \<open>butlast\<close>, \<^verbatim>\<open>snake.insert(0, new_head)\<close> is \<open>#\<close>, \<^verbatim>\<open>snake.pop()\<close>
  drops the last cell.  The result is \<open>None\<close> when \<^verbatim>\<open>random_food_position\<close> never
  returns.
\<close>

definition move :: "(nat \<Rightarrow> nat) \<Rightarrow> cell \<Rightarrow> game \<Rightarrow> frame_result option" where
  "move rng d g =
     (case snake g of
        [] \<Rightarrow> Some (Raised IndexError)
      | (head_x, head_y) # rest \<Rightarrow>
          let new_head = (head_x + fst d, head_y + snd d);
              will_grow = (new_head = food g);
              hit_wall = (fst new_head < 0 \<or> fst new_head \<ge> GRID_WIDTH
                          \<or> snd new_head < 0 \<or> snd new_head \<ge> GRID_HEIGHT);
              body_to_check = (if will_grow then snake g else butlast (snake g));
              hit_self = (new_head \<in> set body_to_check)
          in if hit_wall \<or> hit_self then
               Some (Break (g\<lparr>game_over_reason := (if hit_wall then ''wall'' else ''self''),
                              running := False\<rparr>))
             else
               let g1 = g\<lparr>snake := new_head # snake g\<rparr>
               in if will_grow then
                    (let eaten_food_pos = food g1;
                         g2 = g1\<lparr>score := score g1 + 1\<rparr>
                     in case random_food_position rng (rng_pos g2) (snake g2) of
                          None \<Rightarrow> None
                        | Some (p, i) \<Rightarrow>
                            Some (Next (g2\<lparr>food := p, rng_pos := i,
                              size_anim_remaining_ms := 400,
                              food_pop_effects := food_pop_effects g2 @
                                [\<lparr>pos = eaten_food_pos, duration_ms = 250, remaining_ms = 250\<rparr>],
                              best_score := max (best_score g2) (score g2),
                              best_size := max (best_size g2) (int (length (snake g2)))\<rparr>)))
                  else Some (Next (g1\<lparr>snake := butlast (snake g1)\<rparr>)))"

text \<open>The body of \<^verbatim>\<open>while running\<close> (lines 474 to 667).\<close>

definition frame :: "(nat \<Rightarrow> nat) \<Rightarrow> int \<Rightarrow> event list \<Rightarrow> game \<Rightarrow> frame_result option" where
  "frame rng now_ms events g =
     (let dt_ms = max 0 (now_ms - last_tick_ms g);
          g1 = g\<lparr>last_tick_ms := now_ms\<rparr>
      in case handle_events events g1 of
           Exit \<Rightarrow> Some Exited
         | Raise err \<Rightarrow> Some (Raised err)
         | Done g2 \<Rightarrow>
             if restart_requested g2 then Some (Break g2)
             else if paused g2 then Some (Next g2)
             else
               let g3 = (case next_direction g2 of
                           None \<Rightarrow> g2
                         | Some nd \<Rightarrow> g2\<lparr>direction := Some nd\<rparr>)
               in case direction g3 of
                    None \<Rightarrow> Some (Next g3)
                  | Some d \<Rightarrow> move rng d (tick_timers dt_ms g3))"

subsection \<open>The session: rounds, the game-over screen, exit\<close>

datatype session = Playing game | Game_over_screen game | Quit | Crashed error

text \<open>The start of a round (lines 454 to 472) with the session bests carried in.\<close>

definition new_round :: "(nat \<Rightarrow> nat) \<Rightarrow> nat \<Rightarrow> int \<Rightarrow> int \<Rightarrow> int \<Rightarrow> session option" where
  "new_round rng i now_ms bscore bsize =
     (case create_initial_snake START_LENGTH of
        Inl err \<Rightarrow> Some (Crashed err)
      | Inr sn \<Rightarrow>
          (case random_food_position rng i sn of
             None \<Rightarrow> None
           | Some (f, j) \<Rightarrow>
               Some (Playing \<lparr>snake = sn, food = f, score = 0, paused = False,
                 restart_requested = False, game_over_reason = ''none'', level = 2,
                 direction = None, next_direction = None, show_help = False,
                 show_debug = False, level_toast_remaining_ms = 0,
                 size_anim_remaining_ms = 0, food_pop_effects = [],
                 last_tick_ms = now_ms, running = True,
                 best_score = bscore, best_size = bsize, rng_pos = j\<rparr>)))"

text \<open>\<^verbatim>\<open>main\<close> up to the first round: \<^verbatim>\<open>best_score = 0\<close>, \<^verbatim>\<open>best_size = START_LENGTH\<close>.\<close>

definition main_start :: "(nat \<Rightarrow> nat) \<Rightarrow> int \<Rightarrow> session option" where
  "main_start rng now_ms = new_round rng 0 now_ms 0 START_LENGTH"

text \<open>
  One poll of the event loop of \<^verbatim>\<open>show_game_over\<close>: the first deciding event gives the
  action, \<open>None\<close> means the screen keeps waiting.
\<close>

fun show_game_over :: "event list \<Rightarrow> string option" where
  "show_game_over [] = None"
| "show_game_over (QUIT # es) = Some ''quit''"
| "show_game_over (KEYDOWN K_r # es) = Some ''restart''"
| "show_game_over (KEYDOWN K_ESCAPE # es) = Some ''quit''"
| "show_game_over (e # es) = show_game_over es"

text \<open>
  One step of \<^verbatim>\<open>main\<close>: an iteration of the game loop, or a poll of the game-over screen.
  \<open>t0\<close> is the clock reading taken if a new round starts in this step.
\<close>

definition main_step ::
  "(nat \<Rightarrow> nat) \<Rightarrow> int \<Rightarrow> int \<Rightarrow> event list \<Rightarrow> session \<Rightarrow> session option" where
  "main_step rng now_ms t0 events s =
     (case s of
        Playing g \<Rightarrow>
          (case frame rng now_ms events g of
             None \<Rightarrow> None
           | Some (Next g') \<Rightarrow> Some (Playing g')
           | Some (Break g') \<Rightarrow>
               if restart_requested g'
               then new_round rng (rng_pos g') t0 (best_score g') (best_size g')
               else Some (Game_over_screen g')
           | Some Exited \<Rightarrow> Some Quit
           | Some (Raised err) \<Rightarrow> Some (Crashed err))
      | Game_over_screen g \<Rightarrow>
          (case show_game_over events of
             None \<Rightarrow> Some (Game_over_screen g)
           | Some action \<Rightarrow>
               if action = ''restart''
               then new_round rng (rng_pos g) t0 (best_score g) (best_size g)
               else Some Quit)
      | Quit \<Rightarrow> Some Quit
      | Crashed err \<Rightarrow> Some (Crashed err))"

inductive reachable :: "(nat \<Rightarrow> nat) \<Rightarrow> session \<Rightarrow> bool" for rng :: "nat \<Rightarrow> nat" where
  start: "main_start rng t0 = Some s \<Longrightarrow> reachable rng s"
| step: "reachable rng s \<Longrightarrow> main_step rng now_ms t0 events s = Some s' \<Longrightarrow> reachable rng s'"

fun game_of :: "session \<Rightarrow> game option" where
  "game_of (Playing g) = Some g"
| "game_of (Game_over_screen g) = Some g"
| "game_of _ = None"


subsection \<open>Predicates of the specification\<close>

definition in_grid :: "cell \<Rightarrow> bool" where
  "in_grid c \<longleftrightarrow> 0 \<le> fst c \<and> fst c < GRID_WIDTH \<and> 0 \<le> snd c \<and> snd c < GRID_HEIGHT"

text \<open>Grid adjacency: Manhattan distance 1.\<close>

definition adjacent :: "cell \<Rightarrow> cell \<Rightarrow> bool" where
  "adjacent a b \<longleftrightarrow> \<bar>fst a - fst b\<bar> + \<bar>snd a - snd b\<bar> = 1"

fun consecutive_adjacent :: "cell list \<Rightarrow> bool" where
  "consecutive_adjacent [] = True"
| "consecutive_adjacent [a] = True"
| "consecutive_adjacent (a # b # cs) = (adjacent a b \<and> consecutive_adjacent (b # cs))"

definition unit_direction :: "cell \<Rightarrow> bool" where
  "unit_direction d \<longleftrightarrow> d = (0, -1) \<or> d = (0, 1) \<or> d = (-1, 0) \<or> d = (1, 0)"

fun direction_ok :: "cell option \<Rightarrow> bool" where
  "direction_ok None = True"
| "direction_ok (Some d) = unit_direction d"

text \<open>
  The well-formedness of a round state: the snake is a non-empty chain of distinct
  adjacent grid cells, the food is off the snake, and directions are unit vectors.
\<close>

definition round_inv :: "game \<Rightarrow> bool" where
  "round_inv g \<longleftrightarrow>
     snake g \<noteq> [] \<and> distinct (snake g) \<and> consecutive_adjacent (snake g)
     \<and> list_all in_grid (snake g) \<and> food g \<notin> set (snake g)
     \<and> direction_ok (direction g) \<and> direction_ok (next_direction g)"

fun session_inv :: "session \<Rightarrow> bool" where
  "session_inv (Playing g) = round_inv g"
| "session_inv (Game_over_screen g) = round_inv g"
| "session_inv _ = True"

text \<open>
  The rule for direction input as the specification words it (section 4.2): before any
  move a candidate is accepted when one step from the head stays in the grid and does
  not land on the snake; after movement has started, unless it is the opposite of the
  active direction.  \<open>buffer_events\<close> is the buffered direction after a list of events
  under that rule: an accepted candidate overwrites it, anything else leaves it alone.
\<close>

definition accepted_candidate :: "game \<Rightarrow> cell \<Rightarrow> bool" where
  "accepted_candidate g c \<longleftrightarrow>
     (case direction g of
        None \<Rightarrow>
          (case snake g of
             [] \<Rightarrow> False
           | h # rest \<Rightarrow>
               in_grid (fst h + fst c, snd h + snd c)
               \<and> (fst h + fst c, snd h + snd c) \<notin> set (snake g))
      | Some d \<Rightarrow> c \<noteq> (- fst d, - snd d))"

fun buffer_events :: "(cell \<Rightarrow> bool) \<Rightarrow> event list \<Rightarrow> cell option \<Rightarrow> cell option" where
  "buffer_events acc [] nd = nd"
| "buffer_events acc (e # es) nd =
     buffer_events acc es
       (case e of
          KEYDOWN k \<Rightarrow>
            (case key_to_dir k of
               Some c \<Rightarrow> if acc c then Some c else nd
             | None \<Rightarrow> nd)
        | _ \<Rightarrow> nd)"

text \<open>A run of \<open>main_step\<close> over a list of inputs \<open>(now_ms, t0, events)\<close>.\<close>

fun run :: "(nat \<Rightarrow> nat) \<Rightarrow> (int \<times> int \<times> event list) list \<Rightarrow> session \<Rightarrow> session option" where
  "run rng [] s = Some s"
| "run rng ((now_ms, t0, events) # rest) s =
     (case main_step rng now_ms t0 events s of
        None \<Rightarrow> None
      | Some s' \<Rightarrow> run rng rest s')"

subsection \<open>Concrete inputs\<close>

text \<open>A fixed sequence of raw random draws.\<close>

definition rng0 :: "nat \<Rightarrow> nat" where
  "rng0 i = 7 * i + 3"

text \<open>A second sequence of draws: it puts the first food right in front of the snake.\<close>

definition rng1 :: "nat \<Rightarrow> nat" where
  "rng1 i = 13 * i + 17"

text \<open>
  A snake that covers the whole grid: row \<open>y\<close> is walked left to right when \<open>y\<close> is
  even and right to left when it is odd.
\<close>

definition full_row :: "int \<Rightarrow> cell list" where
  "full_row y =
     (if even y then map (\<lambda>x. (x, y)) [0..GRID_WIDTH - 1]
      else map (\<lambda>x. (x, y)) (rev [0..GRID_WIDTH - 1]))"

definition full_snake :: "cell list" where
  "full_snake = concat (map full_row [0..GRID_HEIGHT - 1])"

text \<open>The first round of a session that starts at clock reading 0 with the draws \<open>rng0\<close>.\<close>

definition round0 :: game where
  "round0 = \<lparr>snake = [(16, 10), (15, 10), (14, 10), (13, 10), (12, 10)], food = (3, 10),
     score = 0, paused = False, restart_requested = False, game_over_reason = ''none'',
     level = 2, direction = None, next_direction = None, show_help = False,
     show_debug = False, level_toast_remaining_ms = 0, size_anim_remaining_ms = 0,
     food_pop_effects = [], last_tick_ms = 0, running = True,
     best_score = 0, best_size = 5, rng_pos = 2\<rparr>"

text \<open>That round after the player pressed the right arrow and one iteration has run.\<close>

definition round1 :: game where
  "round1 = round0\<lparr>snake := [(17, 10), (16, 10), (15, 10), (14, 10), (13, 10)],
     direction := Some (1, 0), next_direction := Some (1, 0), last_tick_ms := 100\<rparr>"

text \<open>The same state with the food in the cell right of the head.\<close>

definition eat_game :: game where
  "eat_game = round1\<lparr>food := (18, 10)\<rparr>"

text \<open>A snake about to run into the right wall, and one about to run into its body.\<close>

definition wall_game :: game where
  "wall_game = round1\<lparr>snake := [(29, 10), (28, 10), (27, 10), (26, 10), (25, 10)]\<rparr>"

definition self_game :: game where
  "self_game = round1\<lparr>snake := [(5, 5), (5, 6), (6, 6), (6, 5), (7, 5), (8, 5)]\<rparr>"

text \<open>
  The first round under the draws \<open>rng1\<close>, and the state after the right arrow and one
  iteration, in which the snake has eaten.
\<close>

definition feast0 :: game where
  "feast0 = round0\<lparr>food := (17, 10)\<rparr>"

definition feast1 :: game where
  "feast1 = feast0\<lparr>snake := [(17, 10), (16, 10), (15, 10), (14, 10), (13, 10), (12, 10)],
     score := 1, food := (13, 16), rng_pos := 4, direction := Some (1, 0),
     next_direction := Some (1, 0), last_tick_ms := 100, size_anim_remaining_ms := 400,
     food_pop_effects := [\<lparr>pos = (17, 10), duration_ms = 250, remaining_ms = 250\<rparr>],
     best_score := 1, best_size := 6\<rparr>"

text \<open>The state \<open>round1\<close> after the pause key, at clock reading 200.\<close>

definition paused1 :: game where
  "paused1 = round1\<lparr>paused := True, last_tick_ms := 200\<rparr>"

text \<open>The first round paused before any move, at clock reading 100.\<close>

definition paused0 :: game where
  "paused0 = round0\<lparr>paused := True, last_tick_ms := 100\<rparr>"

text \<open>
  A snake on all cells of the grid but \<open>(0, 0)\<close>, with its head at \<open>(1, 0)\<close>, moving
  left towards the food on the last free cell.
\<close>

definition last_cell_game :: game where
  "last_cell_game = round1\<lparr>snake := tl full_snake, food := (0, 0),
     direction := Some (-1, 0), next_direction := Some (-1, 0)\<rparr>"

text \<open>Iterations without events, at the given clock readings.\<close>

definition idle_inputs :: "(int \<times> int) list \<Rightarrow> (int \<times> int \<times> event list) list" where
  "idle_inputs ts = map (\<lambda>(now_ms, t0). (now_ms, t0, [])) ts"

text \<open>A moving snake whose head is next to its own tail.\<close>

definition loop_game :: game where
  "loop_game = round0\<lparr>snake := [(5, 5), (5, 6), (6, 6), (6, 5)],
     direction := Some (1, 0), next_direction := Some (1, 0)\<rparr>"

section \<open>Properties\<close>

subsection \<open>Grid constants and initial placement\<close>

lemma grid_consts: "GRID_WIDTH = 30" "GRID_HEIGHT = 20"
  by (simp_all add: GRID_WIDTH_def GRID_HEIGHT_def WINDOW_WIDTH_def WINDOW_HEIGHT_def CELL_SIZE_def)

lemma last_upto_int: "i \<le> j \<Longrightarrow> last [i..j] = j"
  by (simp add: upto_rec2 [of i j])

text \<open>
  C9.  \<^verbatim>\<open>create_initial_snake(L)\<close> raises the configuration error exactly when
  \<open>L < 1\<close> or \<open>L > GRID_WIDTH\<close>.  Otherwise it returns \<open>L\<close> cells in the row
  \<open>GRID_HEIGHT div 2\<close>, head first: cell \<open>i\<close> is \<open>i\<close> columns left of the head, the
  tail is in column \<open>(GRID_WIDTH - L) div 2\<close> and the head in column \<open>tail_x + L - 1\<close>.
\<close>

theorem create_initial_snake_placement:
  "(create_initial_snake L = Inl ValueError \<longleftrightarrow> L < 1 \<or> L > GRID_WIDTH) \<and>
   (1 \<le> L \<and> L \<le> GRID_WIDTH \<longrightarrow>
      (\<exists>sn. create_initial_snake L = Inr sn \<and> length sn = nat L
        \<and> (\<forall>i < nat L. sn ! i = ((GRID_WIDTH - L) div 2 + L - 1 - int i, GRID_HEIGHT div 2))
        \<and> hd sn = ((GRID_WIDTH - L) div 2 + L - 1, GRID_HEIGHT div 2)
        \<and> last sn = ((GRID_WIDTH - L) div 2, GRID_HEIGHT div 2)))"
proof (intro conjI impI)
  show "create_initial_snake L = Inl ValueError \<longleftrightarrow> L < 1 \<or> L > GRID_WIDTH"
    by (simp add: create_initial_snake_def Let_def)
next
  assume L: "1 \<le> L \<and> L \<le> GRID_WIDTH"
  let ?hx = "(GRID_WIDTH - L) div 2 + L - 1"
  let ?hy = "GRID_HEIGHT div 2"
  let ?sn = "map (\<lambda>i. (?hx - i, ?hy)) [0..L - 1]"
  from L have eq: "create_initial_snake L = Inr ?sn"
    by (simp add: create_initial_snake_def Let_def)
  have len: "length ?sn = nat L" using L by simp
  have nth: "\<forall>i < nat L. ?sn ! i = (?hx - int i, ?hy)"
    using L by simp
  have ne: "[0..L - 1] \<noteq> []" using L by simp
  have h: "hd ?sn = (?hx, ?hy)"
    using L ne by (simp add: hd_map upto.simps)
  have l: "last ?sn = ((GRID_WIDTH - L) div 2, ?hy)"
    using L ne by (simp add: last_map last_upto_int)
  from eq len nth h l
  show "\<exists>sn. create_initial_snake L = Inr sn \<and> length sn = nat L
        \<and> (\<forall>i < nat L. sn ! i = (?hx - int i, ?hy))
        \<and> hd sn = (?hx, ?hy)
        \<and> last sn = ((GRID_WIDTH - L) div 2, ?hy)"
    by blast
qed

theorem create_initial_snake_placement_witness:
  "1 \<le> (5::int) \<and> 5 \<le> GRID_WIDTH
   \<and> create_initial_snake 5 = Inr [(16,10),(15,10),(14,10),(13,10),(12,10)]
   \<and> create_initial_snake 31 = Inl ValueError \<and> create_initial_snake 0 = Inl ValueError"
  using create_initial_snake_placement [of 5] create_initial_snake_placement [of 31]
    create_initial_snake_placement [of 0]
  by (simp add: grid_consts create_initial_snake_def Let_def upto.simps)


subsection \<open>Food placement\<close>

lemma randint_range:
  assumes "a \<le> b"
  shows "a \<le> randint a b r \<and> randint a b r \<le> b"
proof -
  from assms have pos: "0 < b - a + 1" by simp
  have lo: "0 \<le> int r mod (b - a + 1)" using pos by (rule pos_mod_sign)
  have hi: "int r mod (b - a + 1) < b - a + 1" using pos by (rule pos_mod_bound)
  from lo hi show ?thesis unfolding randint_def by linarith
qed

lemma random_cell_in_grid: "in_grid (random_cell rng i)"
  using randint_range [of 0 "GRID_WIDTH - 1" "rng i"]
    randint_range [of 0 "GRID_HEIGHT - 1" "rng (i + 1)"]
  by (simp add: in_grid_def random_cell_def grid_consts)

lemma random_food_position_sound:
  assumes ret: "random_food_position rng i sn = Some r"
  shows "fst r \<notin> set sn \<and> in_grid (fst r) \<and> (\<exists>k. fst r = random_cell rng (i + 2 * k) \<and> snd r = i + 2 * k + 2)"
proof (rule random_food_position.raw_induct
    [where P = "\<lambda>rng i sn r. fst r \<notin> set sn \<and> in_grid (fst r)
        \<and> (\<exists>k. fst r = random_cell rng (i + 2 * k) \<and> snd r = i + 2 * k + 2)", OF _ ret])
  fix f rng i sn r
  assume IH: "\<And>rng i sn r. f rng i sn = Some r \<Longrightarrow>
      fst r \<notin> set sn \<and> in_grid (fst r)
      \<and> (\<exists>k. fst r = random_cell rng (i + 2 * k) \<and> snd r = i + 2 * k + 2)"
    and eq: "(let pos = random_cell rng i
              in if pos \<notin> set sn then Some (pos, i + 2) else f rng (i + 2) sn) = Some r"
  show "fst r \<notin> set sn \<and> in_grid (fst r)
      \<and> (\<exists>k. fst r = random_cell rng (i + 2 * k) \<and> snd r = i + 2 * k + 2)"
  proof (cases "random_cell rng i \<notin> set sn")
    case True
    with eq have r: "r = (random_cell rng i, i + 2)" by (simp add: Let_def)
    have "fst r = random_cell rng (i + 2 * 0) \<and> snd r = i + 2 * 0 + 2" using r by simp
    then have "\<exists>k. fst r = random_cell rng (i + 2 * k) \<and> snd r = i + 2 * k + 2" by blast
    with True r show ?thesis by (simp add: random_cell_in_grid)
  next
    case False
    with eq have "f rng (i + 2) sn = Some r" by (simp add: Let_def)
    from IH [OF this] obtain k where
      a: "fst r \<notin> set sn" "in_grid (fst r)"
      and k: "fst r = random_cell rng (i + 2 + 2 * k)" "snd r = i + 2 + 2 * k + 2"
      by blast
    have "fst r = random_cell rng (i + 2 * Suc k) \<and> snd r = i + 2 * Suc k + 2"
      using k by (simp add: add.assoc)
    then have "\<exists>k. fst r = random_cell rng (i + 2 * k) \<and> snd r = i + 2 * k + 2" by blast
    with a show ?thesis by simp
  qed
qed

lemma random_food_position_returns:
  "random_cell rng (i + 2 * k) \<notin> set sn \<Longrightarrow> \<exists>r. random_food_position rng i sn = Some r"
proof (induction k arbitrary: i)
  case 0
  then show ?case by (subst random_food_position.simps) (simp add: Let_def)
next
  case (Suc k)
  from Suc.prems have "random_cell rng (i + 2 + 2 * k) \<notin> set sn" by (simp add: add.assoc)
  from Suc.IH [OF this] obtain r where r: "random_food_position rng (i + 2) sn = Some r" by blast
  show ?case
  proof (cases "random_cell rng i \<notin> set sn")
    case True
    then show ?thesis by (subst random_food_position.simps) (simp add: Let_def)
  next
    case False
    with r show ?thesis by (subst random_food_position.simps) (simp add: Let_def)
  qed
qed

lemma random_food_position_full:
  assumes "\<forall>c. in_grid c \<longrightarrow> c \<in> set sn"
  shows "random_food_position rng i sn = None"
proof (cases "random_food_position rng i sn")
  case None
  then show ?thesis .
next
  case (Some r)
  from random_food_position_sound [OF Some] have "fst r \<notin> set sn" "in_grid (fst r)" by simp_all
  with assms show ?thesis by blast
qed

lemma set_full_row: "set (full_row y) = {0..GRID_WIDTH - 1} \<times> {y}"
  by (auto simp: full_row_def)

lemma set_full_snake: "set full_snake = {0..GRID_WIDTH - 1} \<times> {0..GRID_HEIGHT - 1}"
  by (auto simp: full_snake_def set_full_row)

lemma full_snake_covers: "in_grid c \<Longrightarrow> c \<in> set full_snake"
  by (cases c) (simp add: set_full_snake in_grid_def)

lemma length_full_row: "length (full_row y) = 30"
  by (simp add: full_row_def grid_consts)

lemma length_full_snake: "length full_snake = 600"
  by (simp add: full_snake_def length_concat comp_def length_full_row grid_consts sum_list_triv)

lemma distinct_full_row: "distinct (full_row y)"
  by (simp add: full_row_def distinct_map inj_on_def)

lemma full_row_inj: "full_row x = full_row y \<Longrightarrow> x = y"
proof -
  assume "full_row x = full_row y"
  then have "set (full_row x) = set (full_row y)" by simp
  then have "{0..GRID_WIDTH - 1} \<times> {x} = {0..GRID_WIDTH - 1} \<times> {y}" by (simp add: set_full_row)
  moreover have "(0, x) \<in> {0..GRID_WIDTH - 1} \<times> {x}" by (simp add: grid_consts)
  ultimately have "(0, x) \<in> {0..GRID_WIDTH - 1} \<times> {y}" by simp
  then show "x = y" by simp
qed

lemma distinct_full_snake: "distinct full_snake"
  unfolding full_snake_def
proof (rule distinct_concat)
  show "distinct (map full_row [0..GRID_HEIGHT - 1])"
    by (simp add: distinct_map inj_on_def) (blast dest: full_row_inj)
next
  fix ys assume "ys \<in> set (map full_row [0..GRID_HEIGHT - 1])"
  then show "distinct ys" by (auto simp: distinct_full_row)
next
  fix ys zs
  assume "ys \<in> set (map full_row [0..GRID_HEIGHT - 1])" "zs \<in> set (map full_row [0..GRID_HEIGHT - 1])" "ys \<noteq> zs"
  then show "set ys \<inter> set zs = {}" by (auto simp: set_full_row)
qed

subsection \<open>Chains of adjacent cells\<close>

lemma consecutive_adjacent_butlast:
  "consecutive_adjacent xs \<Longrightarrow> consecutive_adjacent (butlast xs)"
proof (induction xs rule: consecutive_adjacent.induct)
  case 1
  then show ?case by simp
next
  case (2 a)
  then show ?case by simp
next
  case (3 a b cs)
  then show ?case by (cases cs) simp_all
qed

lemma consecutive_adjacent_push:
  assumes "consecutive_adjacent (h # rest)" and "adjacent n h"
  shows "consecutive_adjacent (n # butlast (h # rest))"
proof (cases rest)
  case Nil
  then show ?thesis by simp
next
  case (Cons b cs)
  from assms(1) have "consecutive_adjacent (butlast (h # rest))"
    by (rule consecutive_adjacent_butlast)
  with Cons assms(2) show ?thesis by simp
qed

lemma unit_direction_adjacent:
  "unit_direction d \<Longrightarrow> adjacent (hx + fst d, hy + snd d) (hx, hy)"
  by (auto simp: unit_direction_def adjacent_def)

lemma key_to_dir_unit: "key_to_dir k = Some c \<Longrightarrow> unit_direction c"
  by (cases k) (auto simp: unit_direction_def)

lemma create_initial_snake_START:
  "create_initial_snake START_LENGTH = Inr [(16,10),(15,10),(14,10),(13,10),(12,10)]"
  by (simp add: START_LENGTH_def create_initial_snake_def grid_consts Let_def upto.simps)

subsection \<open>Every piece of the loop keeps the round well-formed\<close>

lemma handle_direction_inv:
  assumes "round_inv g" and "unit_direction c" and "handle_direction c g = Done g'"
  shows "round_inv g'"
proof -
  from assms(3) have "g' = g \<or> g' = g\<lparr>next_direction := Some c\<rparr>"
    by (auto simp: handle_direction_def Let_def split: option.splits list.splits if_splits)
  with assms(1,2) show ?thesis by (auto simp: round_inv_def)
qed

lemma handle_event_inv:
  assumes "round_inv g" and "handle_event e g = Done g'"
  shows "round_inv g'"
proof (cases e)
  case QUIT
  with assms(2) show ?thesis by (simp add: handle_event_def)
next
  case OTHER_EVENT
  with assms show ?thesis by (simp add: handle_event_def)
next
  case (KEYDOWN k)
  show ?thesis
  proof (cases "k \<in> {K_UP, K_DOWN, K_LEFT, K_RIGHT}")
    case True
    then obtain c where c: "key_to_dir k = Some c" by auto
    with True KEYDOWN assms(2) have "handle_direction c g = Done g'"
      by (auto simp: handle_event_def)
    with assms(1) key_to_dir_unit [OF c] show ?thesis by (blast intro: handle_direction_inv)
  next
    case False
    with KEYDOWN assms show ?thesis
      by (auto simp: handle_event_def round_inv_def split: if_splits)
  qed
qed

lemma handle_events_inv:
  "round_inv g \<Longrightarrow> handle_events es g = Done g' \<Longrightarrow> round_inv g'"
proof (induction es arbitrary: g)
  case Nil
  then show ?case by simp
next
  case (Cons e es)
  from Cons.prems(2) obtain g1 where e: "handle_event e g = Done g1"
    and es: "handle_events es g1 = Done g'"
    by (auto split: outcome.splits)
  from Cons.prems(1) e have "round_inv g1" by (rule handle_event_inv)
  then show ?case using es by (rule Cons.IH)
qed

lemma tick_timers_inv: "round_inv g \<Longrightarrow> round_inv (tick_timers dt g)"
  by (simp add: round_inv_def tick_timers_def)

lemma tick_timers_fields:
  "snake (tick_timers dt g) = snake g" "food (tick_timers dt g) = food g"
  "score (tick_timers dt g) = score g" "direction (tick_timers dt g) = direction g"
  "next_direction (tick_timers dt g) = next_direction g"
  "best_score (tick_timers dt g) = best_score g" "best_size (tick_timers dt g) = best_size g"
  "rng_pos (tick_timers dt g) = rng_pos g" "paused (tick_timers dt g) = paused g"
  "restart_requested (tick_timers dt g) = restart_requested g"
  "game_over_reason (tick_timers dt g) = game_over_reason g"
  "running (tick_timers dt g) = running g"
  by (simp_all add: tick_timers_def)

subsection \<open>The four outcomes of a step\<close>

lemma hit_wall_iff:
  "(x < 0 \<or> GRID_WIDTH \<le> x \<or> y < 0 \<or> GRID_HEIGHT \<le> y) \<longleftrightarrow> \<not> in_grid (x, y)"
  by (auto simp: in_grid_def)

lemma move_empty: "snake g = [] \<Longrightarrow> move rng d g = Some (Raised IndexError)"
  by (simp add: move_def)

lemma move_wall:
  assumes "snake g = (hx, hy) # rest" and "\<not> in_grid (hx + fst d, hy + snd d)"
  shows "move rng d g = Some (Break (g\<lparr>game_over_reason := ''wall'', running := False\<rparr>))"
  using assms by (simp add: move_def Let_def hit_wall_iff)

lemma move_self:
  assumes "snake g = (hx, hy) # rest" and "in_grid (hx + fst d, hy + snd d)"
    and "(hx + fst d, hy + snd d) \<in>
      set (if (hx + fst d, hy + snd d) = food g then snake g else butlast (snake g))"
  shows "move rng d g = Some (Break (g\<lparr>game_over_reason := ''self'', running := False\<rparr>))"
proof (cases "(hx + fst d, hy + snd d) = food g")
  case True
  with assms show ?thesis by (simp add: move_def Let_def hit_wall_iff)
next
  case False
  with assms show ?thesis by (simp add: move_def Let_def hit_wall_iff)
qed

lemma move_plain:
  assumes "snake g = (hx, hy) # rest" and "in_grid (hx + fst d, hy + snd d)"
    and "(hx + fst d, hy + snd d) \<noteq> food g"
    and "(hx + fst d, hy + snd d) \<notin> set (butlast (snake g))"
  shows "move rng d g = Some (Next (g\<lparr>snake := (hx + fst d, hy + snd d) # butlast (snake g)\<rparr>))"
  using assms by (simp add: move_def Let_def hit_wall_iff)

lemma move_grow:
  assumes "snake g = (hx, hy) # rest" and "in_grid (hx + fst d, hy + snd d)"
    and "(hx + fst d, hy + snd d) = food g"
    and "(hx + fst d, hy + snd d) \<notin> set (snake g)"
  shows "move rng d g =
    (case random_food_position rng (rng_pos g) (food g # snake g) of
       None \<Rightarrow> None
     | Some (p, i) \<Rightarrow>
         Some (Next (g\<lparr>snake := food g # snake g, score := score g + 1, food := p,
           rng_pos := i, size_anim_remaining_ms := 400,
           food_pop_effects := food_pop_effects g @
             [\<lparr>pos = food g, duration_ms = 250, remaining_ms = 250\<rparr>],
           best_score := max (best_score g) (score g + 1),
           best_size := max (best_size g) (int (length (snake g)) + 1)\<rparr>)))"
  using assms(1,2,4) assms(3) [symmetric]
  by (simp add: move_def Let_def hit_wall_iff split: option.splits)

lemma move_inv:
  assumes inv: "round_inv g" and d: "unit_direction d" and ret: "move rng d g = Some r"
  shows "(\<exists>g'. r = Next g' \<and> round_inv g') \<or> (\<exists>g'. r = Break g' \<and> round_inv g')"
proof -
  from inv obtain hx hy rest where sn: "snake g = (hx, hy) # rest"
    by (cases "snake g") (auto simp: round_inv_def)
  let ?nh = "(hx + fst d, hy + snd d)"
  have adj: "adjacent ?nh (hx, hy)" using d by (rule unit_direction_adjacent)
  show ?thesis
  proof (cases "in_grid ?nh")
    case False
    from move_wall [OF sn False] ret inv show ?thesis by (auto simp: round_inv_def)
  next
    case grid: True
    show ?thesis
    proof (cases "?nh \<in> set (if ?nh = food g then snake g else butlast (snake g))")
      case True
      from move_self [OF sn grid True] ret inv show ?thesis by (auto simp: round_inv_def)
    next
      case free: False
      show ?thesis
      proof (cases "?nh = food g")
        case False
        with free have nb: "?nh \<notin> set (butlast (snake g))" by simp
        from move_plain [OF sn grid False nb] ret
        have r: "r = Next (g\<lparr>snake := ?nh # butlast (snake g)\<rparr>)" by simp
        have 1: "distinct (?nh # butlast (snake g))"
          using inv nb by (simp add: round_inv_def distinct_butlast)
        have 2: "consecutive_adjacent (?nh # butlast (snake g))"
          using inv adj sn consecutive_adjacent_push [of "(hx, hy)" rest ?nh]
          by (simp add: round_inv_def)
        have sub: "set (butlast (snake g)) \<subseteq> set (snake g)"
          by (auto dest: in_set_butlastD)
        have 3: "list_all in_grid (?nh # butlast (snake g))"
          using inv grid sub by (auto simp: round_inv_def list_all_iff)
        have 4: "food g \<notin> set (?nh # butlast (snake g))"
          using inv False sub by (auto simp: round_inv_def)
        from 1 2 3 4 inv have "round_inv (g\<lparr>snake := ?nh # butlast (snake g)\<rparr>)"
          by (simp add: round_inv_def)
        with r show ?thesis by blast
      next
        case True
        with free have nb: "?nh \<notin> set (snake g)" by simp
        note eq = move_grow [OF sn grid True nb]
        from ret eq obtain p i where
          rf: "random_food_position rng (rng_pos g) (food g # snake g) = Some (p, i)"
          by (auto split: option.splits)
        from random_food_position_sound [OF rf]
        have p: "p \<notin> set (food g # snake g)" "in_grid p" by simp_all
        let ?g' = "g\<lparr>snake := food g # snake g, score := score g + 1, food := p,
           rng_pos := i, size_anim_remaining_ms := 400,
           food_pop_effects := food_pop_effects g @
             [\<lparr>pos = food g, duration_ms = 250, remaining_ms = 250\<rparr>],
           best_score := max (best_score g) (score g + 1),
           best_size := max (best_size g) (int (length (snake g)) + 1)\<rparr>"
        from ret eq rf have r: "r = Next ?g'" by simp
        have "round_inv ?g'"
          using inv p nb grid adj sn True [symmetric] by (simp add: round_inv_def)
        with r show ?thesis by blast
      qed
    qed
  qed
qed

lemma handle_direction_no_raise: "snake g \<noteq> [] \<Longrightarrow> handle_direction c g \<noteq> Raise err"
  by (auto simp: handle_direction_def Let_def split: option.splits list.splits)

lemma handle_event_no_raise: "snake g \<noteq> [] \<Longrightarrow> handle_event e g \<noteq> Raise err"
  by (cases e) (auto simp: handle_event_def handle_direction_no_raise)

lemma handle_events_no_raise: "round_inv g \<Longrightarrow> handle_events es g \<noteq> Raise err"
proof (induction es arbitrary: g)
  case Nil
  then show ?case by simp
next
  case (Cons e es)
  from Cons.prems have ne: "snake g \<noteq> []" by (simp add: round_inv_def)
  show ?case
  proof (cases "handle_event e g")
    case (Done g1)
    with Cons.prems have "round_inv g1" by (blast intro: handle_event_inv)
    from Cons.IH [OF this] Done show ?thesis by simp
  next
    case Exit
    then show ?thesis by simp
  next
    case (Raise err')
    with handle_event_no_raise [OF ne] show ?thesis by blast
  qed
qed

lemma frame_inv:
  assumes inv: "round_inv g" and ret: "frame rng now_ms events g = Some r"
  shows "(\<exists>g'. r = Next g' \<and> round_inv g') \<or> (\<exists>g'. r = Break g' \<and> round_inv g') \<or> r = Exited"
proof -
  let ?g1 = "g\<lparr>last_tick_ms := now_ms\<rparr>"
  from inv have inv1: "round_inv ?g1" by (simp add: round_inv_def)
  show ?thesis
  proof (cases "handle_events events ?g1")
    case Exit
    with ret show ?thesis by (simp add: frame_def Let_def)
  next
    case (Raise err)
    with handle_events_no_raise [OF inv1] show ?thesis by blast
  next
    case (Done g2)
    from inv1 Done have inv2: "round_inv g2" by (rule handle_events_inv)
    let ?g3 = "case next_direction g2 of None \<Rightarrow> g2 | Some nd \<Rightarrow> g2\<lparr>direction := Some nd\<rparr>"
    have inv3: "round_inv ?g3" using inv2 by (auto simp: round_inv_def split: option.splits)
    show ?thesis
    proof (cases "restart_requested g2 \<or> paused g2")
      case True
      with ret Done inv2 show ?thesis by (auto simp: frame_def Let_def split: if_splits)
    next
      case False
      show ?thesis
      proof (cases "direction ?g3")
        case None
        with False ret Done have "r = Next ?g3" by (simp add: frame_def Let_def)
        with inv3 show ?thesis by blast
      next
        case (Some d)
        with False ret Done have m: "move rng d (tick_timers (max 0 (now_ms - last_tick_ms g)) ?g3) = Some r"
          by (simp add: frame_def Let_def)
        from inv3 Some have "unit_direction d" by (simp add: round_inv_def)
        from move_inv [OF tick_timers_inv [OF inv3] this m] show ?thesis by blast
      qed
    qed
  qed
qed


lemma new_round_inv:
  assumes "new_round rng i now_ms bscore bsize = Some s"
  shows "session_inv s"
proof -
  let ?sn = "[(16,10),(15,10),(14,10),(13,10),(12,10)] :: cell list"
  from assms obtain f j where rf: "random_food_position rng i ?sn = Some (f, j)"
    and s: "s = Playing \<lparr>snake = ?sn, food = f, score = 0, paused = False,
                 restart_requested = False, game_over_reason = ''none'', level = 2,
                 direction = None, next_direction = None, show_help = False,
                 show_debug = False, level_toast_remaining_ms = 0,
                 size_anim_remaining_ms = 0, food_pop_effects = [],
                 last_tick_ms = now_ms, running = True,
                 best_score = bscore, best_size = bsize, rng_pos = j\<rparr>"
    by (auto simp: new_round_def create_initial_snake_START split: option.splits)
  from random_food_position_sound [OF rf] have "f \<notin> set ?sn" by simp
  then show ?thesis unfolding s
    by (simp add: round_inv_def adjacent_def in_grid_def grid_consts)
qed

lemma main_step_inv:
  assumes inv: "session_inv s" and st: "main_step rng now_ms t0 events s = Some s'"
  shows "session_inv s'"
proof (cases s)
  case (Playing g)
  with inv have g: "round_inv g" by simp
  from st Playing obtain r where fr: "frame rng now_ms events g = Some r"
    by (auto simp: main_step_def split: option.splits)
  from frame_inv [OF g fr] st Playing fr show ?thesis
    by (auto simp: main_step_def new_round_inv split: if_splits)
next
  case (Game_over_screen g)
  with inv st show ?thesis
    by (auto simp: main_step_def new_round_inv split: option.splits if_splits)
next
  case Quit
  with st show ?thesis by (auto simp: main_step_def)
next
  case (Crashed err)
  with st show ?thesis by (auto simp: main_step_def)
qed

lemma reachable_inv: "reachable rng s \<Longrightarrow> session_inv s"
proof (induction rule: reachable.induct)
  case (start t0 s)
  then show ?case by (simp add: main_start_def new_round_inv)
next
  case (step s now_ms t0 events s')
  then show ?case by (blast intro: main_step_inv)
qed

subsection \<open>A concrete run\<close>

lemma random_food_position_rng0_start:
  "random_food_position rng0 0 [(16,10),(15,10),(14,10),(13,10),(12,10)] = Some ((3, 10), 2)"
  by (subst random_food_position.simps)
     (simp add: random_cell_def randint_def rng0_def grid_consts Let_def)

lemma main_start_rng0: "main_start rng0 0 = Some (Playing round0)"
  by (simp add: main_start_def new_round_def create_initial_snake_START
      create_initial_snake_START [unfolded START_LENGTH_def]
      random_food_position_rng0_start round0_def START_LENGTH_def)

lemma reachable_round0: "reachable rng0 (Playing round0)"
  by (rule reachable.start [OF main_start_rng0])

lemma frame_round0_right: "frame rng0 100 [KEYDOWN K_RIGHT] round0 = Some (Next round1)"
  by (simp add: frame_def handle_event_def handle_direction_def move_def tick_timers_def
      round0_def round1_def grid_consts Let_def)

lemma reachable_round1: "reachable rng0 (Playing round1)"
proof (rule reachable.step [OF reachable_round0])
  show "main_step rng0 100 100 [KEYDOWN K_RIGHT] (Playing round0) = Some (Playing round1)"
    by (simp add: main_step_def frame_round0_right)
qed

subsection \<open>The snake invariant\<close>

text \<open>
  C1.  In every reachable state of a session that still has a round (playing or on the
  game-over screen), the cells of the snake are pairwise distinct, consecutive cells are
  grid-adjacent, and the food is not on the snake.
\<close>

theorem snake_invariant:
  assumes "reachable rng s" and "game_of s = Some g"
  shows "distinct (snake g) \<and> consecutive_adjacent (snake g) \<and> food g \<notin> set (snake g)"
proof -
  from assms(1) have "session_inv s" by (rule reachable_inv)
  with assms(2) have "round_inv g" by (cases s) simp_all
  then show ?thesis by (simp add: round_inv_def)
qed

theorem snake_invariant_witness:
  "reachable rng0 (Playing round1) \<and> game_of (Playing round1) = Some round1
   \<and> distinct (snake round1) \<and> consecutive_adjacent (snake round1)
   \<and> food round1 \<notin> set (snake round1)"
proof -
  have g: "game_of (Playing round1) = Some round1" by simp
  from reachable_round1 g snake_invariant [OF reachable_round1 g] show ?thesis by blast
qed

lemma last_notin_butlast: "distinct xs \<Longrightarrow> xs \<noteq> [] \<Longrightarrow> last xs \<notin> set (butlast xs)"
proof -
  assume d: "distinct xs" and ne: "xs \<noteq> []"
  from ne have "xs = butlast xs @ [last xs]" by simp
  with d have "distinct (butlast xs @ [last xs])" by simp
  then show ?thesis by simp
qed

lemma move_self_iff:
  assumes sn: "snake g = (hx, hy) # rest"
  shows "(\<exists>g'. move rng d g = Some (Break g') \<and> game_over_reason g' = ''self'') \<longleftrightarrow>
    in_grid (hx + fst d, hy + snd d) \<and> (hx + fst d, hy + snd d) \<in>
      set (if (hx + fst d, hy + snd d) = food g then snake g else butlast (snake g))"
proof -
  let ?nh = "(hx + fst d, hy + snd d)"
  show ?thesis
  proof (cases "in_grid ?nh")
    case False
    from move_wall [OF sn False, of rng] False show ?thesis by auto
  next
    case grid: True
    show ?thesis
    proof (cases "?nh \<in> set (if ?nh = food g then snake g else butlast (snake g))")
      case True
      from move_self [OF sn grid True, of rng] grid True show ?thesis by simp
    next
      case free: False
      show ?thesis
      proof (cases "?nh = food g")
        case True
        with free have "?nh \<notin> set (snake g)" by simp
        from move_grow [OF sn grid True this, of rng] free show ?thesis
          by (auto split: option.splits)
      next
        case False
        with free have "?nh \<notin> set (butlast (snake g))" by simp
        from move_plain [OF sn grid False this, of rng] free show ?thesis by simp
      qed
    qed
  qed
qed

lemma move_into_tail:
  assumes sn: "snake g = (hx, hy) # rest"
    and dist: "distinct (snake g)" and lg: "in_grid (last (snake g))"
    and tail: "(hx + fst d, hy + snd d) = last (snake g)"
    and nf: "(hx + fst d, hy + snd d) \<noteq> food g"
  shows "move rng d g = Some (Next (g\<lparr>snake := last (snake g) # butlast (snake g)\<rparr>))"
proof -
  let ?nh = "(hx + fst d, hy + snd d)"
  from sn have "snake g \<noteq> []" by simp
  with dist have "last (snake g) \<notin> set (butlast (snake g))" by (rule last_notin_butlast)
  then have nb: "?nh \<notin> set (butlast (snake g))" by (simp add: tail)
  from lg have grid: "in_grid ?nh" by (simp add: tail)
  from move_plain [OF sn grid nf nb] show ?thesis by (simp add: tail)
qed

text \<open>
  C2.  A snake of at least two distinct cells whose new head is the cell of its own tail,
  and not the food, moves on: the step returns the snake with the tail cell in front and
  the round does not end.  In a reachable state this needs no further condition: the
  cells are distinct, the tail is in the grid and is not the food.  For every snake, the
  step ends the round with reason self exactly when the new head is in the grid and in
  the full snake (when growing) or in the snake without its tail cell (when not
  growing).
\<close>

theorem tail_follow:
  assumes sn: "snake g = (hx, hy) # rest"
  shows "(rest \<noteq> [] \<and> distinct (snake g) \<and> in_grid (last (snake g))
          \<and> (hx + fst d, hy + snd d) = last (snake g)
          \<and> (hx + fst d, hy + snd d) \<noteq> food g \<longrightarrow>
          move rng d g = Some (Next (g\<lparr>snake := last (snake g) # butlast (snake g)\<rparr>)))
    \<and> (rest \<noteq> [] \<and> reachable rng (Playing g)
          \<and> (hx + fst d, hy + snd d) = last (snake g) \<longrightarrow>
          move rng d g = Some (Next (g\<lparr>snake := last (snake g) # butlast (snake g)\<rparr>)))
    \<and> ((\<exists>g'. move rng d g = Some (Break g') \<and> game_over_reason g' = ''self'') \<longleftrightarrow>
         in_grid (hx + fst d, hy + snd d) \<and> (hx + fst d, hy + snd d) \<in>
           set (if (hx + fst d, hy + snd d) = food g then snake g else butlast (snake g)))"
proof (intro conjI impI)
  let ?nh = "(hx + fst d, hy + snd d)"
  show "move rng d g = Some (Next (g\<lparr>snake := last (snake g) # butlast (snake g)\<rparr>))"
    if h: "rest \<noteq> [] \<and> distinct (snake g) \<and> in_grid (last (snake g))
          \<and> ?nh = last (snake g) \<and> ?nh \<noteq> food g"
  proof -
    from h have "distinct (snake g)" "in_grid (last (snake g))" "?nh = last (snake g)"
      "?nh \<noteq> food g"
      by blast+
    with sn show ?thesis by (rule move_into_tail)
  qed
  show "move rng d g = Some (Next (g\<lparr>snake := last (snake g) # butlast (snake g)\<rparr>))"
    if h: "rest \<noteq> [] \<and> reachable rng (Playing g) \<and> ?nh = last (snake g)"
  proof -
    from h have "session_inv (Playing g)" by (blast intro: reachable_inv)
    then have inv: "round_inv g" by simp
    from sn have mem: "last (snake g) \<in> set (snake g)" by simp
    from inv have dist: "distinct (snake g)" by (simp add: round_inv_def)
    from inv mem have lg: "in_grid (last (snake g))" by (simp add: round_inv_def list_all_iff)
    from h have tail: "?nh = last (snake g)" by blast
    from inv have off: "food g \<notin> set (snake g)" by (simp add: round_inv_def)
    have "last (snake g) \<noteq> food g"
    proof
      assume "last (snake g) = food g"
      with mem have "food g \<in> set (snake g)" by (simp only:)
      with off show False ..
    qed
    then have nf: "?nh \<noteq> food g" by (simp add: tail)
    from sn dist lg tail nf show ?thesis by (rule move_into_tail)
  qed
  show "(\<exists>g'. move rng d g = Some (Break g') \<and> game_over_reason g' = ''self'') \<longleftrightarrow>
         in_grid ?nh \<and> ?nh \<in> set (if ?nh = food g then snake g else butlast (snake g))"
    using sn by (rule move_self_iff)
qed

theorem tail_follow_witness:
  "snake loop_game = (5, 5) # [(5, 6), (6, 6), (6, 5)]
   \<and> distinct (snake loop_game) \<and> in_grid (last (snake loop_game))
   \<and> (5 + fst (1, 0), 5 + snd (1::int, 0::int)) = last (snake loop_game)
   \<and> (5 + fst (1, 0), 5 + snd (1::int, 0::int)) \<noteq> food loop_game
   \<and> move rng0 (1, 0) loop_game =
       Some (Next (loop_game\<lparr>snake := [(6, 5), (5, 5), (5, 6), (6, 6)]\<rparr>))"
proof -
  have sn: "snake loop_game = (5, 5) # [(5, 6), (6, 6), (6, 5)]"
    by (simp add: loop_game_def round0_def)
  have h: "distinct (snake loop_game) \<and> in_grid (last (snake loop_game))
     \<and> (5 + fst (1, 0), 5 + snd (1::int, 0::int)) = last (snake loop_game)
     \<and> (5 + fst (1, 0), 5 + snd (1::int, 0::int)) \<noteq> food loop_game"
    by (simp add: loop_game_def round0_def in_grid_def grid_consts)
  have ne: "[(5, 6), (6, 6), (6::int, 5::int)] \<noteq> []" by simp
  from tail_follow [OF sn, of "(1, 0)" rng0, THEN conjunct1] ne h
  have "move rng0 (1, 0) loop_game =
      Some (Next (loop_game\<lparr>snake := last (snake loop_game) # butlast (snake loop_game)\<rparr>))"
    by blast
  then have "move rng0 (1, 0) loop_game =
       Some (Next (loop_game\<lparr>snake := [(6, 5), (5, 5), (5, 6), (6, 6)]\<rparr>))"
    by (simp add: sn)
  with sn h show ?thesis by blast
qed

subsection \<open>Growth\<close>

lemma full_snake_front: "\<exists>rest. full_snake = (0, 0) # (1, 0) # rest"
  by (simp add: full_snake_def full_row_def grid_consts
      upto_rec1 [of 0 19] upto_rec1 [of 0 29] upto_rec1 [of 1 29])

lemma last_cell_game_facts:
  "\<exists>rest. snake last_cell_game = (1, 0) # rest"
  "food last_cell_game # snake last_cell_game = full_snake"
  "food last_cell_game \<notin> set (snake last_cell_game)"
  "distinct (snake last_cell_game)"
  "length (snake last_cell_game) = 599"
  "list_all in_grid (snake last_cell_game)"
  "in_grid (food last_cell_game)"
proof -
  from full_snake_front obtain rest where fs: "full_snake = (0, 0) # (1, 0) # rest" ..
  have tl: "tl full_snake = (1, 0) # rest" unfolding fs by simp
  have sn: "snake last_cell_game = tl full_snake" and fd: "food last_cell_game = (0, 0)"
    by (simp_all add: last_cell_game_def round1_def round0_def)
  show "\<exists>rest. snake last_cell_game = (1, 0) # rest" unfolding sn tl by blast
  show whole: "food last_cell_game # snake last_cell_game = full_snake"
    unfolding sn fd fs list.sel by (rule refl)
  from distinct_full_snake have d: "distinct (food last_cell_game # snake last_cell_game)"
    by (simp only: whole)
  then show "food last_cell_game \<notin> set (snake last_cell_game)" by simp
  from d show "distinct (snake last_cell_game)" by simp
  from length_full_snake have "length (food last_cell_game # snake last_cell_game) = 600"
    by (simp only: whole)
  then show "length (snake last_cell_game) = 599" by simp
  have "list_all in_grid full_snake"
    by (auto simp: list_all_iff set_full_snake in_grid_def)
  then have "list_all in_grid (food last_cell_game # snake last_cell_game)"
    by (simp only: whole)
  then show "list_all in_grid (snake last_cell_game)" by simp
  show "in_grid (food last_cell_game)" by (simp add: fd in_grid_def grid_consts)
qed

lemma move_last_cell: "move rng (-1, 0) last_cell_game = None"
proof -
  from last_cell_game_facts(1) obtain rest where sn: "snake last_cell_game = (1, 0) # rest" ..
  have fd: "food last_cell_game = (0, 0)"
    by (simp add: last_cell_game_def round1_def round0_def)
  have eat: "(1 + fst (-1::int, 0::int), 0 + snd (-1::int, 0::int)) = food last_cell_game"
    by (simp add: fd)
  have grid: "in_grid (1 + fst (-1::int, 0::int), 0 + snd (-1::int, 0::int))"
    by (simp add: in_grid_def grid_consts)
  have free: "(1 + fst (-1::int, 0::int), 0 + snd (-1::int, 0::int)) \<notin> set (snake last_cell_game)"
    using last_cell_game_facts(3) by (simp add: fd)
  have "random_food_position rng (rng_pos last_cell_game) (food last_cell_game # snake last_cell_game)
      = None"
    unfolding last_cell_game_facts(2)
    by (rule random_food_position_full) (simp add: full_snake_covers)
  with move_grow [OF sn grid eat free, of rng] show ?thesis by simp
qed

text \<open>
  C3 as stated fails where the grown snake fills the grid: in \<open>last_cell_game\<close> the new
  head is the food, there is no collision, and the step never returns.
\<close>

theorem growth_last_cell_counterexample:
  "length (snake last_cell_game) = 599 \<and> distinct (snake last_cell_game)
   \<and> list_all in_grid (snake last_cell_game)
   \<and> hd (snake last_cell_game) = (1, 0) \<and> food last_cell_game = (0, 0)
   \<and> food last_cell_game \<notin> set (snake last_cell_game)
   \<and> move rng0 (-1, 0) last_cell_game = None"
proof -
  from last_cell_game_facts(1) have "hd (snake last_cell_game) = (1, 0)" by auto
  moreover have "food last_cell_game = (0, 0)"
    by (simp add: last_cell_game_def round1_def round0_def)
  ultimately show ?thesis
    using last_cell_game_facts(3-6) move_last_cell [of rng0] by (intro conjI) blast+
qed

lemma random_food_position_none_iff:
  "random_food_position rng i sn = None \<longleftrightarrow> (\<forall>k. random_cell rng (i + 2 * k) \<in> set sn)"
proof
  assume none: "random_food_position rng i sn = None"
  show "\<forall>k. random_cell rng (i + 2 * k) \<in> set sn"
  proof (rule ccontr)
    assume "\<not> (\<forall>k. random_cell rng (i + 2 * k) \<in> set sn)"
    then obtain k where "random_cell rng (i + 2 * k) \<notin> set sn" by blast
    from random_food_position_returns [OF this] none show False by simp
  qed
next
  assume all: "\<forall>k. random_cell rng (i + 2 * k) \<in> set sn"
  show "random_food_position rng i sn = None"
  proof (cases "random_food_position rng i sn")
    case None
    then show ?thesis .
  next
    case (Some r)
    from random_food_position_sound [OF Some] all show ?thesis by auto
  qed
qed

text \<open>
  C3, amended.  When the new head is the food cell and there is no collision, the step
  returns exactly when one of the coming draws is a cell off the grown snake, and then
  it has put the food cell in front of the snake (length plus one), added one to the
  score, and moved the food to a grid cell that is not on the grown snake.  When every
  coming draw is on the grown snake, as it is when the grown snake fills the grid, the
  step never returns.
\<close>

theorem growth:
  assumes sn: "snake g = (hx, hy) # rest"
    and eat: "(hx + fst d, hy + snd d) = food g"
    and grid: "in_grid (food g)"
    and free: "food g \<notin> set (snake g)"
  shows "((\<exists>k. random_cell rng (rng_pos g + 2 * k) \<notin> set (food g # snake g)) \<longrightarrow>
            (\<exists>g'. move rng d g = Some (Next g') \<and> snake g' = food g # snake g
               \<and> length (snake g') = length (snake g) + 1 \<and> score g' = score g + 1
               \<and> food g' \<notin> set (snake g') \<and> in_grid (food g')))
       \<and> ((\<forall>k. random_cell rng (rng_pos g + 2 * k) \<in> set (food g # snake g)) \<longrightarrow>
            move rng d g = None)
       \<and> ((\<forall>c. in_grid c \<longrightarrow> c \<in> set (food g # snake g)) \<longrightarrow> move rng d g = None)
       \<and> (\<forall>r. move rng d g = Some r \<longrightarrow>
            (\<exists>g'. r = Next g' \<and> snake g' = food g # snake g
               \<and> length (snake g') = length (snake g) + 1 \<and> score g' = score g + 1
               \<and> food g' \<notin> set (snake g') \<and> in_grid (food g')))"
proof -
  from grid free eat have grid': "in_grid (hx + fst d, hy + snd d)"
    and free': "(hx + fst d, hy + snd d) \<notin> set (snake g)" by simp_all
  note eq = move_grow [OF sn grid' eat free', of rng]
  have partial: "\<exists>g'. r = Next g' \<and> snake g' = food g # snake g
               \<and> length (snake g') = length (snake g) + 1 \<and> score g' = score g + 1
               \<and> food g' \<notin> set (snake g') \<and> in_grid (food g')"
    if ret: "move rng d g = Some r" for r
  proof -
    from ret eq obtain p i where
      rf: "random_food_position rng (rng_pos g) (food g # snake g) = Some (p, i)"
      by (auto split: option.splits)
    from random_food_position_sound [OF rf]
    have p: "p \<notin> set (food g # snake g)" "in_grid p" by simp_all
    from ret eq rf obtain g' where r: "r = Next g'"
      and g': "g' = g\<lparr>snake := food g # snake g, score := score g + 1, food := p,
           rng_pos := i, size_anim_remaining_ms := 400,
           food_pop_effects := food_pop_effects g @
             [\<lparr>pos = food g, duration_ms = 250, remaining_ms = 250\<rparr>],
           best_score := max (best_score g) (score g + 1),
           best_size := max (best_size g) (int (length (snake g)) + 1)\<rparr>"
      by simp
    from r p show ?thesis by (simp add: g')
  qed
  have total: "\<exists>g'. move rng d g = Some (Next g') \<and> snake g' = food g # snake g
               \<and> length (snake g') = length (snake g) + 1 \<and> score g' = score g + 1
               \<and> food g' \<notin> set (snake g') \<and> in_grid (food g')"
    if "\<exists>k. random_cell rng (rng_pos g + 2 * k) \<notin> set (food g # snake g)"
  proof -
    from that obtain k where "random_cell rng (rng_pos g + 2 * k) \<notin> set (food g # snake g)" ..
    from random_food_position_returns [OF this] obtain q where
      "random_food_position rng (rng_pos g) (food g # snake g) = Some q" ..
    with eq obtain r where ret: "move rng d g = Some r" by (cases q) simp
    from partial [OF ret] ret show ?thesis by auto
  qed
  have never: "move rng d g = None"
    if "\<forall>k. random_cell rng (rng_pos g + 2 * k) \<in> set (food g # snake g)"
  proof -
    from that have "random_food_position rng (rng_pos g) (food g # snake g) = None"
      by (rule random_food_position_none_iff [THEN iffD2])
    with eq show ?thesis by simp
  qed
  have full: "move rng d g = None"
    if "\<forall>c. in_grid c \<longrightarrow> c \<in> set (food g # snake g)"
  proof -
    from that have "random_food_position rng (rng_pos g) (food g # snake g) = None"
      by (rule random_food_position_full)
    with eq show ?thesis by simp
  qed
  from total never full partial show ?thesis by blast
qed

theorem growth_witness:
  "snake eat_game = (17, 10) # [(16, 10), (15, 10), (14, 10), (13, 10)]
   \<and> (17 + fst (1, 0), 10 + snd (1::int, 0::int)) = food eat_game
   \<and> in_grid (food eat_game) \<and> food eat_game \<notin> set (snake eat_game)
   \<and> random_cell rng0 (rng_pos eat_game + 2 * 0) \<notin> set (food eat_game # snake eat_game)
   \<and> move rng0 (1, 0) eat_game =
       Some (Next (eat_game\<lparr>snake := [(18, 10), (17, 10), (16, 10), (15, 10), (14, 10), (13, 10)],
         score := 1, food := (17, 4), rng_pos := 4, size_anim_remaining_ms := 400,
         food_pop_effects := [\<lparr>pos = (18, 10), duration_ms = 250, remaining_ms = 250\<rparr>],
         best_score := 1, best_size := 6\<rparr>))
   \<and> move rng1 (-1, 0) last_cell_game = None"
proof -
  have h: "snake eat_game = (17, 10) # [(16, 10), (15, 10), (14, 10), (13, 10)]"
    "(17 + fst (1, 0), 10 + snd (1::int, 0::int)) = food eat_game"
    "in_grid (food eat_game)" "food eat_game \<notin> set (snake eat_game)"
    by (simp_all add: eat_game_def round1_def round0_def in_grid_def grid_consts)
  have fr: "random_cell rng0 (rng_pos eat_game + 2 * 0) \<notin> set (food eat_game # snake eat_game)"
    by (simp add: eat_game_def round1_def round0_def random_cell_def randint_def rng0_def grid_consts)
  have rf: "random_food_position rng0 2 [(18, 10), (17, 10), (16, 10), (15, 10), (14, 10), (13, 10)]
      = Some ((17, 4), 4)"
    by (subst random_food_position.simps)
       (simp add: random_cell_def randint_def rng0_def grid_consts Let_def)
  from growth [OF h, of rng0, THEN conjunct1] fr
  obtain g' where "move rng0 (1, 0) eat_game = Some (Next g')" by blast
  then have mv: "move rng0 (1, 0) eat_game =
       Some (Next (eat_game\<lparr>snake := [(18, 10), (17, 10), (16, 10), (15, 10), (14, 10), (13, 10)],
         score := 1, food := (17, 4), rng_pos := 4, size_anim_remaining_ms := 400,
         food_pop_effects := [\<lparr>pos = (18, 10), duration_ms = 250, remaining_ms = 250\<rparr>],
         best_score := 1, best_size := 6\<rparr>))"
    by (simp add: move_def rf eat_game_def round1_def round0_def grid_consts Let_def)
  from last_cell_game_facts(1) obtain rest where sn: "snake last_cell_game = (1, 0) # rest" ..
  have fd: "food last_cell_game = (0, 0)"
    by (simp add: last_cell_game_def round1_def round0_def)
  have l: "(1 + fst (-1::int, 0::int), 0 + snd (-1::int, 0::int)) = food last_cell_game"
    by (simp add: fd)
  have cover: "\<forall>c. in_grid c \<longrightarrow> c \<in> set (food last_cell_game # snake last_cell_game)"
    unfolding last_cell_game_facts(2) using full_snake_covers by blast
  from growth [OF sn l last_cell_game_facts(7) last_cell_game_facts(3), of rng1,
      THEN conjunct2, THEN conjunct2, THEN conjunct1] cover
  have none: "move rng1 (-1, 0) last_cell_game = None" by (rule mp)
  from h fr mv none show ?thesis by (intro conjI) blast+
qed

subsection \<open>Collisions\<close>

text \<open>
  C4.  A new head outside the grid leaves the loop with reason wall, also when the cell
  is on the body (the wall test comes first).  A new head inside the grid, not the
  food, and on the snake without its tail cell leaves the loop with reason self; for a
  snake that lies in the grid the test of the grid is implied.  Whenever the step
  leaves the loop, the snake, the score and the food are the ones before the step, and
  \<open>running\<close> is off.
\<close>

theorem collision_outcome:
  assumes sn: "snake g = (hx, hy) # rest"
  shows "(\<not> in_grid (hx + fst d, hy + snd d) \<longrightarrow>
            move rng d g = Some (Break (g\<lparr>game_over_reason := ''wall'', running := False\<rparr>)))
       \<and> (in_grid (hx + fst d, hy + snd d) \<and> (hx + fst d, hy + snd d) \<noteq> food g
            \<and> (hx + fst d, hy + snd d) \<in> set (butlast (snake g)) \<longrightarrow>
            move rng d g = Some (Break (g\<lparr>game_over_reason := ''self'', running := False\<rparr>)))
       \<and> (list_all in_grid (snake g) \<and> (hx + fst d, hy + snd d) \<noteq> food g
            \<and> (hx + fst d, hy + snd d) \<in> set (butlast (snake g)) \<longrightarrow>
            move rng d g = Some (Break (g\<lparr>game_over_reason := ''self'', running := False\<rparr>)))
       \<and> (\<forall>g'. move rng d g = Some (Break g') \<longrightarrow>
            snake g' = snake g \<and> score g' = score g \<and> food g' = food g \<and> \<not> running g'
            \<and> game_over_reason g' =
                (if \<not> in_grid (hx + fst d, hy + snd d) then ''wall'' else ''self''))"
proof -
  let ?nh = "(hx + fst d, hy + snd d)"
  have wall: "move rng d g = Some (Break (g\<lparr>game_over_reason := ''wall'', running := False\<rparr>))"
    if "\<not> in_grid ?nh"
    using sn that by (rule move_wall)
  have self: "move rng d g = Some (Break (g\<lparr>game_over_reason := ''self'', running := False\<rparr>))"
    if "in_grid ?nh \<and> ?nh \<noteq> food g \<and> ?nh \<in> set (butlast (snake g))"
    using that by (intro move_self [OF sn]) simp_all
  have self': "move rng d g = Some (Break (g\<lparr>game_over_reason := ''self'', running := False\<rparr>))"
    if h: "list_all in_grid (snake g) \<and> ?nh \<noteq> food g \<and> ?nh \<in> set (butlast (snake g))"
  proof -
    from h have "?nh \<in> set (snake g)" by (blast dest: in_set_butlastD)
    with h have "in_grid ?nh" by (simp add: list_all_iff)
    with h show ?thesis by (intro self) simp
  qed
  have frame: "snake g' = snake g \<and> score g' = score g \<and> food g' = food g \<and> \<not> running g'
      \<and> game_over_reason g' = (if \<not> in_grid ?nh then ''wall'' else ''self'')"
    if br: "move rng d g = Some (Break g')" for g'
  proof (cases "in_grid ?nh")
    case False
    from move_wall [OF sn False, of rng] br show ?thesis using False by auto
  next
    case grid: True
    show ?thesis
    proof (cases "?nh \<in> set (if ?nh = food g then snake g else butlast (snake g))")
      case True
      from move_self [OF sn grid True, of rng] br grid show ?thesis by auto
    next
      case free: False
      show ?thesis
      proof (cases "?nh = food g")
        case True
        with free have "?nh \<notin> set (snake g)" by simp
        from move_grow [OF sn grid True this, of rng] br show ?thesis
          by (auto split: option.splits)
      next
        case False
        with free have "?nh \<notin> set (butlast (snake g))" by simp
        from move_plain [OF sn grid False this, of rng] br show ?thesis by simp
      qed
    qed
  qed
  from wall self self' frame show ?thesis by blast
qed

theorem collision_outcome_witness:
  "snake wall_game = (29, 10) # [(28, 10), (27, 10), (26, 10), (25, 10)]
   \<and> \<not> in_grid (29 + fst (1, 0), 10 + snd (1::int, 0::int))
   \<and> move rng0 (1, 0) wall_game =
       Some (Break (wall_game\<lparr>game_over_reason := ''wall'', running := False\<rparr>))
   \<and> snake self_game = (5, 5) # [(5, 6), (6, 6), (6, 5), (7, 5), (8, 5)]
   \<and> list_all in_grid (snake self_game)
   \<and> (5 + fst (1, 0), 5 + snd (1::int, 0::int)) \<noteq> food self_game
   \<and> (5 + fst (1, 0), 5 + snd (1::int, 0::int)) \<in> set (butlast (snake self_game))
   \<and> move rng0 (1, 0) self_game =
       Some (Break (self_game\<lparr>game_over_reason := ''self'', running := False\<rparr>))"
proof -
  have w: "snake wall_game = (29, 10) # [(28, 10), (27, 10), (26, 10), (25, 10)]"
    by (simp add: wall_game_def round1_def round0_def)
  have nw: "\<not> in_grid (29 + fst (1, 0), 10 + snd (1::int, 0::int))"
    by (simp add: in_grid_def grid_consts)
  have s: "snake self_game = (5, 5) # [(5, 6), (6, 6), (6, 5), (7, 5), (8, 5)]"
    by (simp add: self_game_def round1_def round0_def)
  have h: "list_all in_grid (snake self_game)
     \<and> (5 + fst (1, 0), 5 + snd (1::int, 0::int)) \<noteq> food self_game
     \<and> (5 + fst (1, 0), 5 + snd (1::int, 0::int)) \<in> set (butlast (snake self_game))"
    by (simp add: self_game_def round1_def round0_def in_grid_def grid_consts)
  from collision_outcome [OF w, of "(1, 0)" rng0] nw
  have 1: "move rng0 (1, 0) wall_game =
       Some (Break (wall_game\<lparr>game_over_reason := ''wall'', running := False\<rparr>))"
    by blast
  from collision_outcome [OF s, of "(1, 0)" rng0] h
  have 2: "move rng0 (1, 0) self_game =
       Some (Break (self_game\<lparr>game_over_reason := ''self'', running := False\<rparr>))"
    by blast
  from w nw 1 s h 2 show ?thesis by blast
qed

subsection \<open>Direction keys\<close>

lemma unit_direction_moves: "unit_direction c \<Longrightarrow> (hx + fst c, hy + snd c) \<noteq> (hx, hy)"
  by (auto simp: unit_direction_def)

text \<open>
  C5.  An arrow key with direction \<open>c\<close> sets the buffered direction to \<open>c\<close> exactly in
  these cases: no direction is active, and the cell one step from the head in direction
  \<open>c\<close> is in the grid and not on the snake; or a direction \<open>d\<close> is active and \<open>c\<close> is
  not its opposite.  In every other case the state, and with it the buffered direction,
  is unchanged.
\<close>

theorem direction_input:
  assumes k: "key_to_dir k = Some c" and sn: "snake g = (hx, hy) # rest"
  shows "handle_event (KEYDOWN k) g =
     Done (g\<lparr>next_direction :=
       (if (case direction g of
              None \<Rightarrow> in_grid (hx + fst c, hy + snd c) \<and> (hx + fst c, hy + snd c) \<notin> set (snake g)
            | Some d \<Rightarrow> c \<noteq> (- fst d, - snd d))
        then Some c else next_direction g)\<rparr>)"
proof -
  from k have arrow: "k \<in> {K_UP, K_DOWN, K_LEFT, K_RIGHT}" by (cases k) simp_all
  then have ev: "handle_event (KEYDOWN k) g = handle_direction c g"
    using k by (auto simp: handle_event_def)
  from k have "unit_direction c" by (rule key_to_dir_unit)
  then have nh: "(hx + fst c, hy + snd c) \<noteq> (hx, hy)" by (rule unit_direction_moves)
  show ?thesis
  proof (cases "direction g")
    case None
    with sn nh show ?thesis unfolding ev
      by (simp add: handle_direction_def Let_def in_grid_def)
  next
    case (Some d)
    then show ?thesis unfolding ev
      by (simp add: handle_direction_def Let_def)
  qed
qed

theorem direction_input_witness:
  "key_to_dir K_LEFT = Some (-1, 0) \<and> snake round0 = (16, 10) # [(15, 10), (14, 10), (13, 10), (12, 10)]
   \<and> handle_event (KEYDOWN K_LEFT) round0 = Done round0
   \<and> handle_event (KEYDOWN K_UP) round0 = Done (round0\<lparr>next_direction := Some (0, -1)\<rparr>)
   \<and> key_to_dir K_UP = Some (0, -1) \<and> snake round1 = (17, 10) # [(16, 10), (15, 10), (14, 10), (13, 10)]
   \<and> handle_event (KEYDOWN K_LEFT) round1 = Done round1
   \<and> handle_event (KEYDOWN K_UP) round1 = Done (round1\<lparr>next_direction := Some (0, -1)\<rparr>)"
proof -
  have l: "key_to_dir K_LEFT = Some (-1, 0)" and u: "key_to_dir K_UP = Some (0, -1)" by simp_all
  have s0: "snake round0 = (16, 10) # [(15, 10), (14, 10), (13, 10), (12, 10)]"
    by (simp add: round0_def)
  have s1: "snake round1 = (17, 10) # [(16, 10), (15, 10), (14, 10), (13, 10)]"
    by (simp add: round1_def round0_def)
  have 1: "handle_event (KEYDOWN K_LEFT) round0 = Done round0"
    using direction_input [OF l s0] by (simp add: round0_def in_grid_def grid_consts)
  have 2: "handle_event (KEYDOWN K_UP) round0 = Done (round0\<lparr>next_direction := Some (0, -1)\<rparr>)"
    using direction_input [OF u s0] by (simp add: round0_def in_grid_def grid_consts)
  have 3: "handle_event (KEYDOWN K_LEFT) round1 = Done round1"
    using direction_input [OF l s1] by (simp add: round1_def round0_def)
  have 4: "handle_event (KEYDOWN K_UP) round1 = Done (round1\<lparr>next_direction := Some (0, -1)\<rparr>)"
    using direction_input [OF u s1] by (simp add: round1_def round0_def)
  from l u s0 s1 1 2 3 4 show ?thesis by blast
qed


subsection \<open>What the event loop leaves alone\<close>

lemma handle_direction_keeps:
  assumes "handle_direction c g = Done g'"
  shows "g' = g \<or> g' = g\<lparr>next_direction := Some c\<rparr>"
  using assms
  by (auto simp: handle_direction_def Let_def split: option.splits list.splits if_splits)

lemma handle_event_keeps:
  assumes "handle_event e g = Done g'"
  shows "snake g' = snake g \<and> food g' = food g \<and> score g' = score g
    \<and> direction g' = direction g \<and> game_over_reason g' = game_over_reason g
    \<and> size_anim_remaining_ms g' = size_anim_remaining_ms g
    \<and> food_pop_effects g' = food_pop_effects g \<and> running g' = running g
    \<and> best_score g' = best_score g \<and> best_size g' = best_size g
    \<and> rng_pos g' = rng_pos g \<and> last_tick_ms g' = last_tick_ms g"
proof (cases e)
  case QUIT
  with assms show ?thesis by (simp add: handle_event_def)
next
  case OTHER_EVENT
  with assms show ?thesis by (simp add: handle_event_def)
next
  case (KEYDOWN k)
  show ?thesis
  proof (cases "k \<in> {K_UP, K_DOWN, K_LEFT, K_RIGHT}")
    case True
    with KEYDOWN assms have "handle_direction (the (key_to_dir k)) g = Done g'"
      by (auto simp: handle_event_def)
    from handle_direction_keeps [OF this] show ?thesis by auto
  next
    case False
    with KEYDOWN assms show ?thesis
      by (auto simp: handle_event_def split: if_splits)
  qed
qed

lemma handle_events_keeps:
  "handle_events es g = Done g' \<Longrightarrow>
    snake g' = snake g \<and> food g' = food g \<and> score g' = score g
    \<and> direction g' = direction g \<and> game_over_reason g' = game_over_reason g
    \<and> size_anim_remaining_ms g' = size_anim_remaining_ms g
    \<and> food_pop_effects g' = food_pop_effects g \<and> running g' = running g
    \<and> best_score g' = best_score g \<and> best_size g' = best_size g
    \<and> rng_pos g' = rng_pos g \<and> last_tick_ms g' = last_tick_ms g"
proof (induction es arbitrary: g)
  case Nil
  then show ?case by simp
next
  case (Cons e es)
  from Cons.prems obtain g1 where e: "handle_event e g = Done g1"
    and es: "handle_events es g1 = Done g'"
    by (auto split: outcome.splits)
  from handle_event_keeps [OF e] Cons.IH [OF es] show ?case by simp
qed

subsection \<open>Session bests\<close>

lemma move_bests:
  assumes ret: "move rng d g = Some r" and r: "r = Next g' \<or> r = Break g'"
  shows "(r = Next g' \<and> snake g' = food g # snake g \<and> score g' = score g + 1
          \<and> best_score g' = max (best_score g) (score g')
          \<and> best_size g' = max (best_size g) (int (length (snake g'))))
       \<or> (score g' = score g \<and> length (snake g') = length (snake g)
          \<and> best_score g' = best_score g \<and> best_size g' = best_size g)"
proof (cases "snake g")
  case Nil
  from move_empty [OF Nil, of rng d] ret r show ?thesis by auto
next
  case (Cons h rest)
  obtain hx hy where h: "h = (hx, hy)" by (cases h)
  with Cons have sn: "snake g = (hx, hy) # rest" by simp
  let ?nh = "(hx + fst d, hy + snd d)"
  show ?thesis
  proof (cases "in_grid ?nh")
    case False
    from move_wall [OF sn False, of rng] ret r show ?thesis by auto
  next
    case grid: True
    show ?thesis
    proof (cases "?nh \<in> set (if ?nh = food g then snake g else butlast (snake g))")
      case True
      from move_self [OF sn grid True, of rng] ret r show ?thesis by auto
    next
      case free: False
      show ?thesis
      proof (cases "?nh = food g")
        case True
        with free have "?nh \<notin> set (snake g)" by simp
        from move_grow [OF sn grid True this, of rng] ret r show ?thesis
          by (auto split: option.splits)
      next
        case False
        with free have "?nh \<notin> set (butlast (snake g))" by simp
        from move_plain [OF sn grid False this, of rng] ret r
        have g': "g' = g\<lparr>snake := ?nh # butlast (snake g)\<rparr>" by auto
        have "length (?nh # butlast (snake g)) = length (snake g)" using sn by simp
        with g' show ?thesis by simp
      qed
    qed
  qed
qed

lemma frame_bests:
  assumes ret: "frame rng now_ms events g = Some r" and r: "r = Next g' \<or> r = Break g'"
  shows "(r = Next g' \<and> snake g' = food g # snake g \<and> score g' = score g + 1
          \<and> best_score g' = max (best_score g) (score g')
          \<and> best_size g' = max (best_size g) (int (length (snake g'))))
       \<or> (score g' = score g \<and> length (snake g') = length (snake g)
          \<and> best_score g' = best_score g \<and> best_size g' = best_size g)"
proof (cases "handle_events events (g\<lparr>last_tick_ms := now_ms\<rparr>)")
  case Exit
  with ret r show ?thesis by (auto simp: frame_def Let_def)
next
  case (Raise err)
  with ret r show ?thesis by (auto simp: frame_def Let_def)
next
  case (Done g2)
  note k = handle_events_keeps [OF Done]
  let ?g3 = "case next_direction g2 of None \<Rightarrow> g2 | Some nd \<Rightarrow> g2\<lparr>direction := Some nd\<rparr>"
  have k3: "snake ?g3 = snake g \<and> food ?g3 = food g \<and> score ?g3 = score g
      \<and> best_score ?g3 = best_score g \<and> best_size ?g3 = best_size g"
    using k by (simp split: option.splits)
  show ?thesis
  proof (cases "restart_requested g2 \<or> paused g2")
    case True
    with ret r Done k show ?thesis by (auto simp: frame_def Let_def split: if_splits)
  next
    case False
    show ?thesis
    proof (cases "direction ?g3")
      case None
      with False ret Done have "r = Next ?g3" by (simp add: frame_def Let_def)
      with r k3 show ?thesis by auto
    next
      case (Some d)
      with False ret Done
      have m: "move rng d (tick_timers (max 0 (now_ms - last_tick_ms g)) ?g3) = Some r"
        by (simp add: frame_def Let_def)
      from move_bests [OF m r] k3 show ?thesis by (simp add: tick_timers_fields)
    qed
  qed
qed

lemma new_round_bests:
  assumes "new_round rng i now_ms bscore bsize = Some s" and "game_of s = Some g"
  shows "best_score g = bscore \<and> best_size g = bsize \<and> score g = 0
    \<and> int (length (snake g)) = START_LENGTH"
  using assms
  by (auto simp: new_round_def create_initial_snake_START [unfolded START_LENGTH_def]
      START_LENGTH_def split: option.splits)

lemma main_step_bests:
  assumes st: "main_step rng now_ms t0 events s = Some s'"
    and g: "game_of s = Some g" and g': "game_of s' = Some g'"
  shows "(s = Playing g \<and> s' = Playing g' \<and> snake g' = food g # snake g \<and> score g' = score g + 1
          \<and> best_score g' = max (best_score g) (score g')
          \<and> best_size g' = max (best_size g) (int (length (snake g'))))
       \<or> ((score g' = score g \<or> score g' = 0) 
          \<and> (length (snake g') = length (snake g) \<or> int (length (snake g')) = START_LENGTH)
          \<and> best_score g' = best_score g \<and> best_size g' = best_size g)"
proof (cases s)
  case (Playing g0)
  with g have [simp]: "g0 = g" by simp
  from st Playing obtain r where fr: "frame rng now_ms events g = Some r"
    by (auto simp: main_step_def split: option.splits)
  show ?thesis
  proof (cases r)
    case (Next g1)
    with st Playing fr g' have s': "s' = Playing g'" and "g1 = g'"
      by (auto simp: main_step_def)
    with Next have "r = Next g' \<or> r = Break g'" by simp
    from frame_bests [OF fr this] s' Playing show ?thesis by auto
  next
    case (Break g1)
    then have "r = Next g1 \<or> r = Break g1" by simp
    note fb = frame_bests [OF fr this]
    show ?thesis
    proof (cases "restart_requested g1")
      case True
      with st Playing fr Break
      have "new_round rng (rng_pos g1) t0 (best_score g1) (best_size g1) = Some s'"
        by (simp add: main_step_def)
      from new_round_bests [OF this g'] fb Break show ?thesis by auto
    next
      case False
      with st Playing fr Break g' have "g1 = g'" by (auto simp: main_step_def)
      with fb Break show ?thesis by auto
    qed
  next
    case Exited
    with st Playing fr g' show ?thesis by (auto simp: main_step_def)
  next
    case (Raised err)
    with st Playing fr g' show ?thesis by (auto simp: main_step_def)
  qed
next
  case (Game_over_screen g0)
  with g have [simp]: "g0 = g" by simp
  show ?thesis
  proof (cases "show_game_over events")
    case None
    with st Game_over_screen g' show ?thesis by (auto simp: main_step_def)
  next
    case (Some a)
    show ?thesis
    proof (cases "a = ''restart''")
      case True
      with st Game_over_screen Some
      have "new_round rng (rng_pos g) t0 (best_score g) (best_size g) = Some s'"
        by (simp add: main_step_def)
      from new_round_bests [OF this g'] show ?thesis by auto
    next
      case False
      with st Game_over_screen Some g' show ?thesis by (auto simp: main_step_def)
    qed
  qed
next
  case Quit
  with g show ?thesis by simp
next
  case (Crashed err)
  with g show ?thesis by simp
qed

lemma reachable_bests:
  "reachable rng s \<Longrightarrow> game_of s = Some g \<Longrightarrow> 0 \<le> best_score g \<and> START_LENGTH \<le> best_size g"
proof (induction arbitrary: g rule: reachable.induct)
  case (start t0 s)
  from new_round_bests [OF start(1) [unfolded main_start_def] start(2)] show ?case by simp
next
  case (step s now_ms t0 events s')
  show ?case
  proof (cases "game_of s")
    case None
    with step.hyps(2) step.prems show ?thesis
      by (cases s) (auto simp: main_step_def)
  next
    case (Some g0)
    from step.IH [OF Some] main_step_bests [OF step.hyps(2) Some step.prems]
    show ?thesis by auto
  qed
qed

subsection \<open>Food placement on a full grid\<close>

text \<open>
  C8 as stated fails: on the snake \<open>full_snake\<close>, 600 distinct grid cells, the food
  placement never returns.
\<close>

theorem food_placement_full_grid_counterexample:
  "length full_snake = 600 \<and> distinct full_snake \<and> list_all in_grid full_snake
   \<and> random_food_position rng0 0 full_snake = None"
proof -
  have "list_all in_grid full_snake"
    by (auto simp: list_all_iff set_full_snake in_grid_def)
  moreover have "random_food_position rng0 0 full_snake = None"
    by (rule random_food_position_full) (simp add: full_snake_covers)
  ultimately show ?thesis by (simp add: length_full_snake distinct_full_snake)
qed

text \<open>
  C8, amended.  Food placement does not return exactly when every coming draw is on the
  snake; so on a snake that covers the grid it never returns, with no error and no
  forced end of the round.  When it returns, the cell is in the grid and off the snake.
\<close>

theorem food_placement:
  "(random_food_position rng i sn = None \<longleftrightarrow> (\<forall>k. random_cell rng (i + 2 * k) \<in> set sn))
   \<and> ((\<forall>c. in_grid c \<longrightarrow> c \<in> set sn) \<longrightarrow> random_food_position rng i sn = None)
   \<and> (\<forall>p j. random_food_position rng i sn = Some (p, j) \<longrightarrow> in_grid p \<and> p \<notin> set sn)"
proof (intro conjI)
  show "random_food_position rng i sn = None \<longleftrightarrow> (\<forall>k. random_cell rng (i + 2 * k) \<in> set sn)"
  proof
    assume none: "random_food_position rng i sn = None"
    show "\<forall>k. random_cell rng (i + 2 * k) \<in> set sn"
    proof (rule ccontr)
      assume "\<not> (\<forall>k. random_cell rng (i + 2 * k) \<in> set sn)"
      then obtain k where "random_cell rng (i + 2 * k) \<notin> set sn" by blast
      from random_food_position_returns [OF this] none show False by simp
    qed
  next
    assume all: "\<forall>k. random_cell rng (i + 2 * k) \<in> set sn"
    show "random_food_position rng i sn = None"
    proof (cases "random_food_position rng i sn")
      case None
      then show ?thesis .
    next
      case (Some r)
      from random_food_position_sound [OF Some] all show ?thesis by auto
    qed
  qed
  show "(\<forall>c. in_grid c \<longrightarrow> c \<in> set sn) \<longrightarrow> random_food_position rng i sn = None"
    by (blast intro: random_food_position_full)
  show "\<forall>p j. random_food_position rng i sn = Some (p, j) \<longrightarrow> in_grid p \<and> p \<notin> set sn"
    by (auto dest: random_food_position_sound)
qed

theorem food_placement_witness:
  "random_food_position rng0 0 [(16, 10), (15, 10), (14, 10), (13, 10), (12, 10)] = Some ((3, 10), 2)
   \<and> in_grid (3, 10) \<and> (3, 10) \<notin> set [(16, 10), (15, 10), (14, 10), (13, 10), (12::int, 10::int)]
   \<and> random_food_position rng1 0 full_snake = None"
proof -
  let ?sn = "[(16, 10), (15, 10), (14, 10), (13, 10), (12, 10)] :: cell list"
  note ret = random_food_position_rng0_start
  from food_placement [of rng0 0 ?sn]
  have "\<forall>p j. random_food_position rng0 0 ?sn = Some (p, j) \<longrightarrow> in_grid p \<and> p \<notin> set ?sn"
    by (rule conjunct2 [THEN conjunct2])
  with ret have free: "in_grid (3, 10) \<and> (3, 10) \<notin> set ?sn" by blast
  have cover: "\<forall>c. in_grid c \<longrightarrow> c \<in> set full_snake"
    using full_snake_covers by blast
  from food_placement [of rng1 0 full_snake]
  have "(\<forall>c. in_grid c \<longrightarrow> c \<in> set full_snake) \<longrightarrow> random_food_position rng1 0 full_snake = None"
    by (rule conjunct2 [THEN conjunct1])
  with cover have "random_food_position rng1 0 full_snake = None" by (rule rev_mp)
  with ret free show ?thesis by (intro conjI) blast+
qed

subsection \<open>Restart and the session bests\<close>

lemma handle_event_restart:
  assumes "handle_event e g = Done g'" and "e = KEYDOWN K_r \<or> restart_requested g"
  shows "restart_requested g'"
proof (cases e)
  case QUIT
  with assms show ?thesis by (simp add: handle_event_def)
next
  case OTHER_EVENT
  with assms show ?thesis by (simp add: handle_event_def)
next
  case (KEYDOWN k)
  show ?thesis
  proof (cases "k \<in> {K_UP, K_DOWN, K_LEFT, K_RIGHT}")
    case True
    with KEYDOWN assms have "handle_direction (the (key_to_dir k)) g = Done g'"
      and "restart_requested g"
      by (auto simp: handle_event_def)
    with handle_direction_keeps [of "the (key_to_dir k)" g g'] show ?thesis by auto
  next
    case False
    with KEYDOWN assms show ?thesis
      by (auto simp: handle_event_def split: if_splits)
  qed
qed

lemma handle_events_restart:
  "handle_events es g = Done g' \<Longrightarrow> KEYDOWN K_r \<in> set es \<or> restart_requested g \<Longrightarrow>
    restart_requested g'"
proof (induction es arbitrary: g)
  case Nil
  then show ?case by simp
next
  case (Cons e es)
  from Cons.prems(1) obtain g1 where e: "handle_event e g = Done g1"
    and es: "handle_events es g1 = Done g'"
    by (auto split: outcome.splits)
  show ?case
  proof (cases "e = KEYDOWN K_r \<or> restart_requested g")
    case True
    from handle_event_restart [OF e True] have "restart_requested g1" .
    with Cons.IH [OF es] show ?thesis by blast
  next
    case False
    with Cons.prems(2) have "KEYDOWN K_r \<in> set es" by auto
    with Cons.IH [OF es] show ?thesis by blast
  qed
qed

lemma restart_key_keeps_bests:
  assumes st: "main_step rng now_ms t0 events (Playing g) = Some s'"
    and key: "KEYDOWN K_r \<in> set events" and g': "game_of s' = Some g'"
  shows "best_score g' = best_score g \<and> best_size g' = best_size g \<and> score g' = 0"
proof (cases "handle_events events (g\<lparr>last_tick_ms := now_ms\<rparr>)")
  case Exit
  with st g' show ?thesis by (auto simp: main_step_def frame_def Let_def)
next
  case (Raise err)
  with st g' show ?thesis by (auto simp: main_step_def frame_def Let_def)
next
  case (Done g2)
  from handle_events_restart [OF Done] key have rr: "restart_requested g2" by blast
  with Done have "frame rng now_ms events g = Some (Break g2)" by (simp add: frame_def Let_def)
  with st rr have "new_round rng (rng_pos g2) t0 (best_score g2) (best_size g2) = Some s'"
    by (simp add: main_step_def)
  from new_round_bests [OF this g'] handle_events_keeps [OF Done] show ?thesis by simp
qed

lemma main_start_rng1: "main_start rng1 0 = Some (Playing feast0)"
proof -
  have "random_food_position rng1 0 [(16,10),(15,10),(14,10),(13,10),(12,10)] = Some ((17, 10), 2)"
    by (subst random_food_position.simps)
       (simp add: random_cell_def randint_def rng1_def grid_consts Let_def)
  then show ?thesis
    by (simp add: main_start_def new_round_def
        create_initial_snake_START [unfolded START_LENGTH_def]
        feast0_def round0_def START_LENGTH_def)
qed

lemma main_step_feast0:
  "main_step rng1 100 100 [KEYDOWN K_RIGHT] (Playing feast0) = Some (Playing feast1)"
proof -
  have rf: "random_food_position rng1 2 [(17,10),(16,10),(15,10),(14,10),(13,10),(12,10)]
      = Some ((13, 16), 4)"
    by (subst random_food_position.simps)
       (simp add: random_cell_def randint_def rng1_def grid_consts Let_def)
  have "frame rng1 100 [KEYDOWN K_RIGHT] feast0 = Some (Next feast1)"
    by (simp add: frame_def handle_event_def handle_direction_def move_def tick_timers_def
        feast0_def feast1_def round0_def grid_consts Let_def rf)
  then show ?thesis by (simp add: main_step_def)
qed

text \<open>
  C10.  A session starts with best score 0 and best size \<open>START_LENGTH\<close>.  In every
  step from a reachable state the best size is at least \<open>START_LENGTH\<close>, neither best
  decreases, and they change only in a step in which the snake eats (the food cell is
  put in front and the score goes up by one), where each becomes the maximum of its old
  value and the new score, respectively the new length.  A step with a restart key, or
  from the game-over screen, carries both bests over unchanged.
\<close>

theorem session_bests:
  assumes re: "reachable rng s" and st: "main_step rng now_ms t0 events s = Some s'"
    and g: "game_of s = Some g" and g': "game_of s' = Some g'"
  shows "START_LENGTH \<le> best_size g
    \<and> best_score g \<le> best_score g' \<and> best_size g \<le> best_size g'
    \<and> (if s = Playing g \<and> s' = Playing g' \<and> snake g' = food g # snake g
           \<and> score g' = score g + 1
        then best_score g' = max (best_score g) (score g')
           \<and> best_size g' = max (best_size g) (int (length (snake g')))
        else best_score g' = best_score g \<and> best_size g' = best_size g)
    \<and> (KEYDOWN K_r \<in> set events \<or> s = Game_over_screen g \<longrightarrow>
          best_score g' = best_score g \<and> best_size g' = best_size g)
    \<and> (\<forall>t s0 g0. main_start rng t = Some s0 \<and> game_of s0 = Some g0 \<longrightarrow>
          best_score g0 = 0 \<and> best_size g0 = START_LENGTH)"
proof -
  from reachable_bests [OF re g] have b: "0 \<le> best_score g" "START_LENGTH \<le> best_size g"
    by simp_all
  note ms = main_step_bests [OF st g g']
  from ms have mono: "best_score g \<le> best_score g' \<and> best_size g \<le> best_size g'" by auto
  have upd: "if s = Playing g \<and> s' = Playing g' \<and> snake g' = food g # snake g
           \<and> score g' = score g + 1
        then best_score g' = max (best_score g) (score g')
           \<and> best_size g' = max (best_size g) (int (length (snake g')))
        else best_score g' = best_score g \<and> best_size g' = best_size g"
    using ms b by auto
  have restart: "best_score g' = best_score g \<and> best_size g' = best_size g"
    if "KEYDOWN K_r \<in> set events \<or> s = Game_over_screen g"
  proof (cases s)
    case (Playing g0)
    with g that st restart_key_keeps_bests [of rng now_ms t0 events g s' g'] g'
    show ?thesis by auto
  next
    case (Game_over_screen g0)
    with ms g show ?thesis by auto
  next
    case Quit
    with g show ?thesis by simp
  next
    case (Crashed err)
    with g show ?thesis by simp
  qed
  have init: "\<forall>t s0 g0. main_start rng t = Some s0 \<and> game_of s0 = Some g0 \<longrightarrow>
          best_score g0 = 0 \<and> best_size g0 = START_LENGTH"
    by (auto simp: main_start_def dest: new_round_bests)
  have restart': "KEYDOWN K_r \<in> set events \<or> s = Game_over_screen g \<longrightarrow>
          best_score g' = best_score g \<and> best_size g' = best_size g"
    using restart by blast
  from mono have mono1: "best_score g \<le> best_score g'" and mono2: "best_size g \<le> best_size g'"
    by simp_all
  show ?thesis
    by (intro conjI) (fact b(2) mono1 mono2 upd restart' init)+
qed

theorem session_bests_witness:
  "reachable rng1 (Playing feast0)
   \<and> main_step rng1 100 100 [KEYDOWN K_RIGHT] (Playing feast0) = Some (Playing feast1)
   \<and> game_of (Playing feast0) = Some feast0 \<and> game_of (Playing feast1) = Some feast1
   \<and> best_score feast0 = 0 \<and> best_size feast0 = 5
   \<and> best_score feast1 = 1 \<and> best_size feast1 = 6
   \<and> START_LENGTH \<le> best_size feast0"
proof -
  have re: "reachable rng1 (Playing feast0)"
    by (rule reachable.start [OF main_start_rng1])
  have g: "game_of (Playing feast0) = Some feast0" "game_of (Playing feast1) = Some feast1"
    by simp_all
  have v: "best_score feast0 = 0 \<and> best_size feast0 = 5
     \<and> best_score feast1 = 1 \<and> best_size feast1 = 6"
    by (simp add: feast0_def feast1_def round0_def)
  from session_bests [OF re main_step_feast0 g]
  have "START_LENGTH \<le> best_size feast0" by (rule conjunct1)
  with re main_step_feast0 g v show ?thesis by (intro conjI) blast+
qed


subsection \<open>Running right into the wall\<close>

lemma step_right_idle:
  assumes "snake g = [(x, y), (x - 1, y), (x - 2, y), (x - 3, y), (x - 4, y)]"
    and "next_direction g = Some (1, 0)" and "\<not> paused g" and "\<not> restart_requested g"
    and "in_grid (x + 1, y)" and "food g \<noteq> (x + 1, y)"
  shows "\<exists>g'. main_step rng now_ms t0 [] (Playing g) = Some (Playing g')
    \<and> snake g' = [(x + 1, y), (x, y), (x - 1, y), (x - 2, y), (x - 3, y)]
    \<and> next_direction g' = Some (1, 0) \<and> \<not> paused g' \<and> \<not> restart_requested g'
    \<and> food g' = food g \<and> score g' = score g"
proof -
  let ?g3 = "tick_timers (max 0 (now_ms - last_tick_ms g))
      (g\<lparr>last_tick_ms := now_ms, direction := Some (1, 0)\<rparr>)"
  have sn: "snake ?g3 = (x, y) # [(x - 1, y), (x - 2, y), (x - 3, y), (x - 4, y)]"
    using assms(1) by (simp add: tick_timers_fields)
  have mv: "move rng (1, 0) ?g3 = Some (Next (?g3\<lparr>snake := (x + 1, y) # butlast (snake ?g3)\<rparr>))"
    using move_plain [OF sn, of "(1, 0)" rng] assms(5,6) sn
    by (simp add: tick_timers_fields)
  have fr: "frame rng now_ms [] g = move rng (1, 0) ?g3"
    using assms(2,3,4) by (simp add: frame_def Let_def)
  show ?thesis
    using assms(2,3,4) sn
    by (simp add: main_step_def fr mv tick_timers_fields)
qed

lemma step_right_first:
  assumes "snake g = [(x, y), (x - 1, y), (x - 2, y), (x - 3, y), (x - 4, y)]"
    and "direction g = None" and "next_direction g = None"
    and "\<not> paused g" and "\<not> restart_requested g"
    and "in_grid (x + 1, y)" and "food g \<noteq> (x + 1, y)"
  shows "\<exists>g'. main_step rng now_ms t0 [KEYDOWN K_RIGHT] (Playing g) = Some (Playing g')
    \<and> snake g' = [(x + 1, y), (x, y), (x - 1, y), (x - 2, y), (x - 3, y)]
    \<and> next_direction g' = Some (1, 0) \<and> \<not> paused g' \<and> \<not> restart_requested g'
    \<and> food g' = food g \<and> score g' = score g"
proof -
  let ?g1 = "g\<lparr>last_tick_ms := now_ms\<rparr>"
  let ?g3 = "tick_timers (max 0 (now_ms - last_tick_ms g))
      (g\<lparr>last_tick_ms := now_ms, next_direction := Some (1, 0), direction := Some (1, 0)\<rparr>)"
  have ev: "handle_events [KEYDOWN K_RIGHT] ?g1 = Done (?g1\<lparr>next_direction := Some (1, 0)\<rparr>)"
    using assms(1,2,6)
    by (simp add: handle_event_def handle_direction_def Let_def in_grid_def)
  have sn: "snake ?g3 = (x, y) # [(x - 1, y), (x - 2, y), (x - 3, y), (x - 4, y)]"
    using assms(1) by (simp add: tick_timers_fields)
  have mv: "move rng (1, 0) ?g3 = Some (Next (?g3\<lparr>snake := (x + 1, y) # butlast (snake ?g3)\<rparr>))"
    using move_plain [OF sn, of "(1, 0)" rng] assms(6,7) sn
    by (simp add: tick_timers_fields)
  have fr: "frame rng now_ms [KEYDOWN K_RIGHT] g = move rng (1, 0) ?g3"
    using assms(4,5) by (simp add: frame_def Let_def ev del: handle_events.simps)
  show ?thesis
    using assms(4,5) sn
    by (simp add: main_step_def fr mv tick_timers_fields)
qed

lemma step_right_wall:
  assumes "snake g = [(29, y), (28, y), (27, y), (26, y), (25, y)]"
    and "next_direction g = Some (1, 0)" and "\<not> paused g" and "\<not> restart_requested g"
  shows "\<exists>g'. main_step rng now_ms t0 [] (Playing g) = Some (Game_over_screen g')
    \<and> game_over_reason g' = ''wall'' \<and> snake g' = snake g \<and> \<not> running g'
    \<and> score g' = score g \<and> food g' = food g"
proof -
  let ?g3 = "tick_timers (max 0 (now_ms - last_tick_ms g))
      (g\<lparr>last_tick_ms := now_ms, direction := Some (1, 0)\<rparr>)"
  have sn: "snake ?g3 = (29, y) # [(28, y), (27, y), (26, y), (25, y)]"
    using assms(1) by (simp add: tick_timers_fields)
  have "\<not> in_grid (29 + fst (1::int, 0::int), y + snd (1::int, 0::int))"
    by (simp add: in_grid_def grid_consts)
  from move_wall [OF sn this, of rng]
  have mv: "move rng (1, 0) ?g3 =
      Some (Break (?g3\<lparr>game_over_reason := ''wall'', running := False\<rparr>))" .
  have fr: "frame rng now_ms [] g = move rng (1, 0) ?g3"
    using assms(2,3,4) by (simp add: frame_def Let_def)
  show ?thesis
    using assms(1,4)
    by (simp add: main_step_def fr mv tick_timers_fields)
qed

lemma run_right_idle:
  assumes "snake g = [(x, y), (x - 1, y), (x - 2, y), (x - 3, y), (x - 4, y)]"
    and "next_direction g = Some (1, 0)" and "\<not> paused g" and "\<not> restart_requested g"
    and "0 \<le> y" and "y < GRID_HEIGHT" and "-1 \<le> x" and "x + int (length ts) < GRID_WIDTH"
    and "snd (food g) \<noteq> y \<or> fst (food g) \<le> x \<or> x + int (length ts) < fst (food g)"
  shows "\<exists>g'. run rng (idle_inputs ts) (Playing g) = Some (Playing g')
    \<and> snake g' = [(x + int (length ts), y), (x + int (length ts) - 1, y),
         (x + int (length ts) - 2, y), (x + int (length ts) - 3, y),
         (x + int (length ts) - 4, y)]
    \<and> next_direction g' = Some (1, 0) \<and> \<not> paused g' \<and> \<not> restart_requested g'
    \<and> food g' = food g \<and> score g' = score g"
  using assms
proof (induction ts arbitrary: g x)
  case Nil
  then show ?case by (simp add: idle_inputs_def)
next
  case (Cons t ts)
  obtain now_ms t0 where t: "t = (now_ms, t0)" by (cases t)
  from Cons.prems(5-8) have grid: "in_grid (x + 1, y)" by (simp add: in_grid_def)
  from Cons.prems(9) have nf: "food g \<noteq> (x + 1, y)" by auto
  from step_right_idle [OF Cons.prems(1-4) grid nf, of rng now_ms t0]
  obtain g1 where st: "main_step rng now_ms t0 [] (Playing g) = Some (Playing g1)"
    and sn1: "snake g1 = [(x + 1, y), (x + 1 - 1, y), (x + 1 - 2, y), (x + 1 - 3, y), (x + 1 - 4, y)]"
    and k1: "next_direction g1 = Some (1, 0)" "\<not> paused g1" "\<not> restart_requested g1"
    and f1: "food g1 = food g" "score g1 = score g"
    by auto
  from Cons.prems(7,8) have b: "-1 \<le> x + 1" "x + 1 + int (length ts) < GRID_WIDTH" by simp_all
  from Cons.prems(9) f1 have nf1:
    "snd (food g1) \<noteq> y \<or> fst (food g1) \<le> x + 1 \<or> x + 1 + int (length ts) < fst (food g1)"
    by auto
  from Cons.IH [OF sn1 k1 Cons.prems(5,6) b nf1]
  obtain g' where rn: "run rng (idle_inputs ts) (Playing g1) = Some (Playing g')"
    and sn': "snake g' = [(x + 1 + int (length ts), y), (x + 1 + int (length ts) - 1, y),
         (x + 1 + int (length ts) - 2, y), (x + 1 + int (length ts) - 3, y),
         (x + 1 + int (length ts) - 4, y)]"
    and k': "next_direction g' = Some (1, 0)" "\<not> paused g'" "\<not> restart_requested g'"
    and f': "food g' = food g1" "score g' = score g1"
    by blast
  have "run rng (idle_inputs (t # ts)) (Playing g) = Some (Playing g')"
    using st rn t by (simp add: idle_inputs_def)
  moreover from sn' have "snake g' = [(x + int (length (t # ts)), y),
      (x + int (length (t # ts)) - 1, y), (x + int (length (t # ts)) - 2, y),
      (x + int (length (t # ts)) - 3, y), (x + int (length (t # ts)) - 4, y)]"
    by (simp add: algebra_simps)
  ultimately show ?case using k' f' f1 by auto
qed

text \<open>
  C7 as stated fails at its first sentence: the initial snake of length 5 does not
  start with its head in column 17.
\<close>

theorem initial_snake_counterexample:
  "create_initial_snake START_LENGTH \<noteq> Inr [(17, 10), (16, 10), (15, 10), (14, 10), (13, 10)]"
  by (simp add: create_initial_snake_START)

text \<open>
  C7, amended.  The initial snake of length 5 is \<open>[(16,10), (15,10), (14,10), (13,10),
  (12,10)]\<close>.  From a resting five-cell snake in row 10 with its head in column \<open>x\<close>
  and no food in the cells to its right, the right arrow followed by \<open>28 - x\<close> further
  iterations (\<open>29 - x\<close> steps: 13 from the initial snake, 12 from a head in column 17)
  leaves the head at \<open>(29, 10)\<close>, and the next step ends the round with reason wall,
  the snake unchanged.
\<close>

theorem right_run_to_wall:
  assumes sn: "snake g = [(x, 10), (x - 1, 10), (x - 2, 10), (x - 3, 10), (x - 4, 10)]"
    and x: "0 \<le> x" "x \<le> 28"
    and dir: "direction g = None" "next_direction g = None"
    and flags: "\<not> paused g" "\<not> restart_requested g"
    and nofood: "snd (food g) \<noteq> 10 \<or> fst (food g) \<le> x \<or> 29 < fst (food g)"
    and len: "int (length ts) = 28 - x"
  shows "create_initial_snake START_LENGTH = Inr [(16, 10), (15, 10), (14, 10), (13, 10), (12, 10)]
    \<and> (\<exists>g'. run rng ((now_ms, t0, [KEYDOWN K_RIGHT]) # idle_inputs ts) (Playing g) = Some (Playing g')
          \<and> snake g' = [(29, 10), (28, 10), (27, 10), (26, 10), (25, 10)]
          \<and> score g' = score g
          \<and> (\<exists>g''. main_step rng now_ms' t0' [] (Playing g') = Some (Game_over_screen g'')
                \<and> game_over_reason g'' = ''wall'' \<and> snake g'' = snake g' \<and> \<not> running g''))"
proof -
  from x have grid: "in_grid (x + 1, 10)" by (simp add: in_grid_def grid_consts)
  from nofood x have nf: "food g \<noteq> (x + 1, 10)" by auto
  from step_right_first [OF sn dir flags grid nf, of rng now_ms t0]
  obtain g1 where st: "main_step rng now_ms t0 [KEYDOWN K_RIGHT] (Playing g) = Some (Playing g1)"
    and sn1: "snake g1 = [(x + 1, 10), (x + 1 - 1, 10), (x + 1 - 2, 10), (x + 1 - 3, 10), (x + 1 - 4, 10)]"
    and k1: "next_direction g1 = Some (1, 0)" "\<not> paused g1" "\<not> restart_requested g1"
    and f1: "food g1 = food g" "score g1 = score g"
    by auto
  have b: "(0::int) \<le> 10" "10 < GRID_HEIGHT" "-1 \<le> x + 1" "x + 1 + int (length ts) < GRID_WIDTH"
    using x len by (simp_all add: grid_consts)
  from nofood f1 len have nf1:
    "snd (food g1) \<noteq> 10 \<or> fst (food g1) \<le> x + 1 \<or> x + 1 + int (length ts) < fst (food g1)"
    by auto
  from run_right_idle [OF sn1 k1 b nf1, of rng]
  obtain g' where rn: "run rng (idle_inputs ts) (Playing g1) = Some (Playing g')"
    and sn': "snake g' = [(x + 1 + int (length ts), 10), (x + 1 + int (length ts) - 1, 10),
         (x + 1 + int (length ts) - 2, 10), (x + 1 + int (length ts) - 3, 10),
         (x + 1 + int (length ts) - 4, 10)]"
    and k': "next_direction g' = Some (1, 0)" "\<not> paused g'" "\<not> restart_requested g'"
    and f': "food g' = food g1" "score g' = score g1"
    by blast
  from len have "x + 1 + int (length ts) = 29" by simp
  with sn' have sn29: "snake g' = [(29, 10), (28, 10), (27, 10), (26, 10), (25, 10)]" by simp
  have rn': "run rng ((now_ms, t0, [KEYDOWN K_RIGHT]) # idle_inputs ts) (Playing g) = Some (Playing g')"
    using st rn by simp
  from step_right_wall [OF sn29 k', of rng now_ms' t0']
  obtain g'' where "main_step rng now_ms' t0' [] (Playing g') = Some (Game_over_screen g'')"
    "game_over_reason g'' = ''wall''" "snake g'' = snake g'" "\<not> running g''"
    by blast
  with rn' sn29 f' f1 create_initial_snake_START show ?thesis by auto
qed

theorem right_run_to_wall_witness:
  "snake round0 = [(16, 10), (16 - 1, 10), (16 - 2, 10), (16 - 3, 10), (16 - 4, 10)]
   \<and> direction round0 = None \<and> next_direction round0 = None
   \<and> \<not> paused round0 \<and> \<not> restart_requested round0
   \<and> fst (food round0) \<le> 16
   \<and> (\<exists>g'. run rng0 ((100, 100, [KEYDOWN K_RIGHT]) #
           idle_inputs [(200, 200), (300, 300), (400, 400), (500, 500), (600, 600), (700, 700),
             (800, 800), (900, 900), (1000, 1000), (1100, 1100), (1200, 1200), (1300, 1300)])
         (Playing round0) = Some (Playing g')
       \<and> snake g' = [(29, 10), (28, 10), (27, 10), (26, 10), (25, 10)]
       \<and> score g' = score round0
       \<and> (\<exists>g''. main_step rng0 1400 1400 [] (Playing g') = Some (Game_over_screen g'')
             \<and> game_over_reason g'' = ''wall'' \<and> snake g'' = snake g' \<and> \<not> running g''))"
proof -
  have h: "snake round0 = [(16, 10), (16 - 1, 10), (16 - 2, 10), (16 - 3, 10), (16 - 4, 10)]"
    "(0::int) \<le> 16" "(16::int) \<le> 28"
    "direction round0 = None" "next_direction round0 = None"
    "\<not> paused round0" "\<not> restart_requested round0"
    "snd (food round0) \<noteq> 10 \<or> fst (food round0) \<le> 16 \<or> 29 < fst (food round0)"
    "int (length [(200::int, 200::int), (300, 300), (400, 400), (500, 500), (600, 600), (700, 700),
             (800, 800), (900, 900), (1000, 1000), (1100, 1100), (1200, 1200), (1300, 1300)]) = 28 - 16"
    by (simp_all add: round0_def)
  have f: "fst (food round0) \<le> 16" by (simp add: round0_def)
  from right_run_to_wall [OF h, of rng0 100 100 1400 1400] h(1,4,5,6,7) f
  show ?thesis by blast
qed

subsection \<open>The paused round\<close>

lemma handle_event_toast:
  assumes "handle_event e g = Done g'"
  shows "level_toast_remaining_ms g' =
    (if \<exists>k \<in> {K_1, K_2, K_3}. e = KEYDOWN k then 1000 else level_toast_remaining_ms g)"
proof (cases e)
  case QUIT
  with assms show ?thesis by (simp add: handle_event_def)
next
  case OTHER_EVENT
  with assms show ?thesis by (simp add: handle_event_def)
next
  case (KEYDOWN k)
  show ?thesis
  proof (cases "k \<in> {K_UP, K_DOWN, K_LEFT, K_RIGHT}")
    case True
    with KEYDOWN assms have "handle_direction (the (key_to_dir k)) g = Done g'"
      by (auto simp: handle_event_def)
    from handle_direction_keeps [OF this] KEYDOWN True show ?thesis by auto
  next
    case False
    with KEYDOWN assms show ?thesis
      by (auto simp: handle_event_def split: if_splits)
  qed
qed

lemma handle_events_toast:
  "handle_events es g = Done g' \<Longrightarrow>
    level_toast_remaining_ms g' =
      (if \<exists>k \<in> {K_1, K_2, K_3}. KEYDOWN k \<in> set es then 1000 else level_toast_remaining_ms g)"
proof (induction es arbitrary: g)
  case Nil
  then show ?case by simp
next
  case (Cons e es)
  from Cons.prems obtain g1 where e: "handle_event e g = Done g1"
    and es: "handle_events es g1 = Done g'"
    by (auto split: outcome.splits)
  from handle_event_toast [OF e] Cons.IH [OF es] show ?case by auto
qed

lemma handle_direction_buffer:
  assumes u: "unit_direction c" and ret: "handle_direction c g = Done g'"
  shows "next_direction g' = (if accepted_candidate g c then Some c else next_direction g)"
proof -
  have eq: "handle_direction c g =
      Done (if accepted_candidate g c then g\<lparr>next_direction := Some c\<rparr> else g)"
  proof (cases "direction g")
    case (Some d)
    then show ?thesis
      by (simp add: handle_direction_def accepted_candidate_def Let_def)
  next
    case None
    show ?thesis
    proof (cases "snake g")
      case Nil
      with None ret show ?thesis by (simp add: handle_direction_def)
    next
      case (Cons h rest)
      obtain hx hy where h: "h = (hx, hy)" by (cases h)
      from u have nh: "(hx + fst c, hy + snd c) \<noteq> (hx, hy)" by (rule unit_direction_moves)
      from None Cons h nh show ?thesis
        by (simp add: handle_direction_def accepted_candidate_def Let_def in_grid_def)
    qed
  qed
  from ret have "g' = (if accepted_candidate g c then g\<lparr>next_direction := Some c\<rparr> else g)"
    unfolding eq by simp
  then show ?thesis by simp
qed

lemma handle_event_buffer:
  assumes ret: "handle_event e g = Done g'"
  shows "next_direction g' = buffer_events (accepted_candidate g) [e] (next_direction g)"
proof (cases e)
  case QUIT
  with ret show ?thesis by (simp add: handle_event_def)
next
  case OTHER_EVENT
  with ret show ?thesis by (simp add: handle_event_def)
next
  case (KEYDOWN k)
  show ?thesis
  proof (cases "key_to_dir k")
    case None
    then have "k \<notin> {K_UP, K_DOWN, K_LEFT, K_RIGHT}" by (cases k) simp_all
    with ret KEYDOWN have "next_direction g' = next_direction g"
      by (auto simp: handle_event_def split: if_splits)
    with KEYDOWN None show ?thesis by simp
  next
    case (Some c)
    then have "k \<in> {K_UP, K_DOWN, K_LEFT, K_RIGHT}" by (cases k) simp_all
    with ret KEYDOWN Some have hd: "handle_direction c g = Done g'"
      by (auto simp: handle_event_def)
    from Some have "unit_direction c" by (rule key_to_dir_unit)
    from handle_direction_buffer [OF this hd] KEYDOWN Some show ?thesis by simp
  qed
qed

lemma accepted_candidate_cong:
  "direction g1 = direction g \<Longrightarrow> snake g1 = snake g \<Longrightarrow>
    accepted_candidate g1 = accepted_candidate g"
  by (rule ext) (simp add: accepted_candidate_def split: option.splits list.splits)

lemma handle_events_buffer:
  "handle_events es g = Done g' \<Longrightarrow>
    next_direction g' = buffer_events (accepted_candidate g) es (next_direction g)"
proof (induction es arbitrary: g)
  case Nil
  then show ?case by simp
next
  case (Cons e es)
  from Cons.prems obtain g1 where e: "handle_event e g = Done g1"
    and es: "handle_events es g1 = Done g'"
    by (auto split: outcome.splits)
  from handle_event_keeps [OF e] have "accepted_candidate g1 = accepted_candidate g"
    by (intro accepted_candidate_cong) simp_all
  with Cons.IH [OF es]
  have "next_direction g' = buffer_events (accepted_candidate g) es (next_direction g1)" by simp
  with handle_event_buffer [OF e] show ?case by simp
qed

lemma handle_direction_pause_flip:
  "handle_direction c (g\<lparr>paused := b\<rparr>) =
    (case handle_direction c g of
       Done g' \<Rightarrow> Done (g'\<lparr>paused := b\<rparr>)
     | Exit \<Rightarrow> Exit
     | Raise err \<Rightarrow> Raise err)"
  by (simp add: handle_direction_def Let_def split: option.splits list.splits)

lemma handle_event_pause_flip:
  "handle_event e (g\<lparr>paused := \<not> paused g\<rparr>) =
    (case handle_event e g of
       Done g' \<Rightarrow> Done (g'\<lparr>paused := \<not> paused g'\<rparr>)
     | Exit \<Rightarrow> Exit
     | Raise err \<Rightarrow> Raise err)"
proof (cases e)
  case QUIT
  then show ?thesis by (simp add: handle_event_def)
next
  case OTHER_EVENT
  then show ?thesis by (simp add: handle_event_def)
next
  case (KEYDOWN k)
  show ?thesis
  proof (cases "key_to_dir k")
    case None
    with KEYDOWN show ?thesis by (cases k) (simp_all add: handle_event_def)
  next
    case (Some c)
    then have arrow: "k \<in> {K_UP, K_DOWN, K_LEFT, K_RIGHT}" by (cases k) simp_all
    then have 1: "handle_event (KEYDOWN k) g = handle_direction c g" for g
      using Some by (auto simp: handle_event_def)
    have keep: "paused g' = paused g" if "handle_direction c g = Done g'" for g'
      using handle_direction_keeps [OF that] by auto
    show ?thesis unfolding KEYDOWN 1 handle_direction_pause_flip
      by (cases "handle_direction c g") (simp_all add: keep)
  qed
qed

lemma handle_events_pause_flip:
  "handle_events es (g\<lparr>paused := \<not> paused g\<rparr>) =
    (case handle_events es g of
       Done g' \<Rightarrow> Done (g'\<lparr>paused := \<not> paused g'\<rparr>)
     | Exit \<Rightarrow> Exit
     | Raise err \<Rightarrow> Raise err)"
proof (induction es arbitrary: g)
  case Nil
  show ?case by simp
next
  case (Cons e es)
  show ?case
  proof (cases "handle_event e g")
    case (Done g1)
    with handle_event_pause_flip [of e g]
    have "handle_event e (g\<lparr>paused := \<not> paused g\<rparr>) = Done (g1\<lparr>paused := \<not> paused g1\<rparr>)"
      by simp
    with Done Cons.IH [of g1] show ?thesis by simp
  next
    case Exit
    with handle_event_pause_flip [of e g] show ?thesis by simp
  next
    case (Raise err)
    with handle_event_pause_flip [of e g] show ?thesis by simp
  qed
qed

lemma reachable_paused1: "reachable rng0 (Playing paused1)"
proof (rule reachable.step [OF reachable_round1])
  show "main_step rng0 200 200 [KEYDOWN K_p] (Playing round1) = Some (Playing paused1)"
    by (simp add: main_step_def frame_def handle_event_def Let_def
        paused1_def round1_def round0_def)
qed

lemma random_food_position_rng0_second:
  "random_food_position rng0 2 [(16,10),(15,10),(14,10),(13,10),(12,10)] = Some ((17, 4), 4)"
  by (subst random_food_position.simps)
     (simp add: random_cell_def randint_def rng0_def grid_consts Let_def)

text \<open>
  C6 as stated fails: in the reachable paused state \<open>paused1\<close> an iteration without
  events changes only the clock reading, but with the restart key it starts a new round
  and with the up arrow it changes the buffered direction.
\<close>

theorem paused_inputs_counterexample:
  "reachable rng0 (Playing paused1) \<and> paused paused1
   \<and> main_step rng0 300 300 [] (Playing paused1) = Some (Playing (paused1\<lparr>last_tick_ms := 300\<rparr>))
   \<and> main_step rng0 300 300 [KEYDOWN K_r] (Playing paused1) =
       Some (Playing (round0\<lparr>food := (17, 4), rng_pos := 4, last_tick_ms := 300\<rparr>))
   \<and> main_step rng0 300 300 [KEYDOWN K_UP] (Playing paused1) =
       Some (Playing (paused1\<lparr>last_tick_ms := 300, next_direction := Some (0, -1)\<rparr>))
   \<and> main_step rng0 300 300 [KEYDOWN K_r] (Playing paused1) \<noteq>
       main_step rng0 300 300 [] (Playing paused1)
   \<and> main_step rng0 300 300 [KEYDOWN K_UP] (Playing paused1) \<noteq>
       main_step rng0 300 300 [] (Playing paused1)"
proof -
  have 1: "paused paused1" by (simp add: paused1_def)
  have 2: "main_step rng0 300 300 [] (Playing paused1) = Some (Playing (paused1\<lparr>last_tick_ms := 300\<rparr>))"
    by (simp add: main_step_def frame_def Let_def paused1_def round1_def round0_def)
  have 3: "main_step rng0 300 300 [KEYDOWN K_r] (Playing paused1) =
       Some (Playing (round0\<lparr>food := (17, 4), rng_pos := 4, last_tick_ms := 300\<rparr>))"
    by (simp add: main_step_def frame_def handle_event_def Let_def new_round_def
        create_initial_snake_START [unfolded START_LENGTH_def] START_LENGTH_def
        random_food_position_rng0_second paused1_def round1_def round0_def)
  have 4: "main_step rng0 300 300 [KEYDOWN K_UP] (Playing paused1) =
       Some (Playing (paused1\<lparr>last_tick_ms := 300, next_direction := Some (0, -1)\<rparr>))"
    by (simp add: main_step_def frame_def handle_event_def handle_direction_def Let_def
        paused1_def round1_def round0_def)
  have 5: "main_step rng0 300 300 [KEYDOWN K_r] (Playing paused1) \<noteq>
       main_step rng0 300 300 [] (Playing paused1)"
    unfolding 2 3
  proof
    assume "Some (Playing (round0\<lparr>food := (17, 4), rng_pos := 4, last_tick_ms := 300\<rparr>)) =
      Some (Playing (paused1\<lparr>last_tick_ms := 300\<rparr>))"
    then have "round0\<lparr>food := (17, 4), rng_pos := 4, last_tick_ms := 300\<rparr> =
      paused1\<lparr>last_tick_ms := 300\<rparr>" by simp
    then have "paused (round0\<lparr>food := (17, 4), rng_pos := 4, last_tick_ms := 300\<rparr>) =
      paused (paused1\<lparr>last_tick_ms := 300\<rparr>)" by (rule arg_cong)
    then show False by (simp add: paused1_def round0_def)
  qed
  have 6: "main_step rng0 300 300 [KEYDOWN K_UP] (Playing paused1) \<noteq>
       main_step rng0 300 300 [] (Playing paused1)"
    unfolding 2 4
  proof
    assume "Some (Playing (paused1\<lparr>last_tick_ms := 300, next_direction := Some (0, -1)\<rparr>)) =
      Some (Playing (paused1\<lparr>last_tick_ms := 300\<rparr>))"
    then have "paused1\<lparr>last_tick_ms := 300, next_direction := Some (0, -1)\<rparr> =
      paused1\<lparr>last_tick_ms := 300\<rparr>" by simp
    then have "next_direction (paused1\<lparr>last_tick_ms := 300, next_direction := Some (0, -1)\<rparr>) =
      next_direction (paused1\<lparr>last_tick_ms := 300\<rparr>)" by (rule arg_cong)
    then show False by (simp add: paused1_def round1_def)
  qed
  from reachable_paused1 1 2 3 4 5 6 show ?thesis by blast
qed



text \<open>
  C6, amended.  When the round is paused after the events of an iteration are handled,
  the iteration stops there: snake, food, score, active direction, termination reason,
  the size and food-pop timers and the session bests are unchanged, and the level toast
  is 1000 if a level key was among the events and unchanged otherwise.  Every event is
  handled as in play: handling the same events from the other pause state gives the
  same result with the pause flag flipped.  So a restart key ends the round and starts a
  new one, and the buffered direction is the one the input rule gives for the whole
  list of events: with no active direction a candidate is accepted when one step from
  the head stays in the grid and off the snake, with an active direction unless it is
  its opposite, and a rejected candidate is dropped.
\<close>

theorem paused_frame:
  assumes ev: "handle_events events (g\<lparr>last_tick_ms := now_ms\<rparr>) = Done g2" and p: "paused g2"
  shows "frame rng now_ms events g = Some (if restart_requested g2 then Break g2 else Next g2)
    \<and> snake g2 = snake g \<and> food g2 = food g \<and> score g2 = score g
    \<and> direction g2 = direction g \<and> game_over_reason g2 = game_over_reason g
    \<and> size_anim_remaining_ms g2 = size_anim_remaining_ms g
    \<and> food_pop_effects g2 = food_pop_effects g
    \<and> best_score g2 = best_score g \<and> best_size g2 = best_size g
    \<and> level_toast_remaining_ms g2 =
        (if \<exists>k \<in> {K_1, K_2, K_3}. KEYDOWN k \<in> set events then 1000
         else level_toast_remaining_ms g)
    \<and> (KEYDOWN K_r \<in> set events \<longrightarrow>
          main_step rng now_ms t0 events (Playing g) =
            new_round rng (rng_pos g) t0 (best_score g) (best_size g))
    \<and> next_direction g2 = buffer_events (accepted_candidate g) events (next_direction g)
    \<and> handle_events events (g\<lparr>last_tick_ms := now_ms, paused := \<not> paused g\<rparr>) =
        Done (g2\<lparr>paused := \<not> paused g2\<rparr>)"
proof -
  from handle_events_keeps [OF ev]
  have k: "snake g2 = snake g" "food g2 = food g" "score g2 = score g"
    "direction g2 = direction g" "game_over_reason g2 = game_over_reason g"
    "size_anim_remaining_ms g2 = size_anim_remaining_ms g"
    "food_pop_effects g2 = food_pop_effects g"
    "best_score g2 = best_score g" "best_size g2 = best_size g" "rng_pos g2 = rng_pos g"
    by simp_all
  have fr: "frame rng now_ms events g = Some (if restart_requested g2 then Break g2 else Next g2)"
    using ev p by (simp add: frame_def Let_def)
  have toast: "level_toast_remaining_ms g2 =
        (if \<exists>k \<in> {K_1, K_2, K_3}. KEYDOWN k \<in> set events then 1000
         else level_toast_remaining_ms g)"
    using handle_events_toast [OF ev] by simp
  have restart: "KEYDOWN K_r \<in> set events \<longrightarrow>
          main_step rng now_ms t0 events (Playing g) =
            new_round rng (rng_pos g) t0 (best_score g) (best_size g)"
  proof
    assume that: "KEYDOWN K_r \<in> set events"
    from handle_events_restart [OF ev] that have "restart_requested g2" by blast
    with fr k show "main_step rng now_ms t0 events (Playing g) =
            new_round rng (rng_pos g) t0 (best_score g) (best_size g)"
      by (simp add: main_step_def)
  qed
  have "accepted_candidate (g\<lparr>last_tick_ms := now_ms\<rparr>) = accepted_candidate g"
    by (intro accepted_candidate_cong) simp_all
  with handle_events_buffer [OF ev]
  have buf: "next_direction g2 = buffer_events (accepted_candidate g) events (next_direction g)"
    by simp
  from handle_events_pause_flip [of events "g\<lparr>last_tick_ms := now_ms\<rparr>"] ev
  have flip: "handle_events events (g\<lparr>last_tick_ms := now_ms, paused := \<not> paused g\<rparr>) =
        Done (g2\<lparr>paused := \<not> paused g2\<rparr>)"
    by simp
  show ?thesis
    by (intro conjI) (fact fr k toast restart buf flip)+
qed

lemma reachable_paused0: "reachable rng0 (Playing paused0)"
proof (rule reachable.step [OF reachable_round0])
  show "main_step rng0 100 100 [KEYDOWN K_p] (Playing round0) = Some (Playing paused0)"
    by (simp add: main_step_def frame_def handle_event_def Let_def paused0_def round0_def)
qed

theorem paused_frame_witness:
  "reachable rng0 (Playing paused0)
   \<and> handle_events [KEYDOWN K_LEFT, KEYDOWN K_UP] (paused0\<lparr>last_tick_ms := 300\<rparr>) =
      Done (paused0\<lparr>last_tick_ms := 300, next_direction := Some (0, -1)\<rparr>)
   \<and> paused (paused0\<lparr>last_tick_ms := 300, next_direction := Some (0, -1)\<rparr>)
   \<and> frame rng0 300 [KEYDOWN K_LEFT, KEYDOWN K_UP] paused0 =
      Some (Next (paused0\<lparr>last_tick_ms := 300, next_direction := Some (0, -1)\<rparr>))
   \<and> buffer_events (accepted_candidate paused0) [KEYDOWN K_LEFT, KEYDOWN K_UP]
        (next_direction paused0) = Some (0, -1)
   \<and> buffer_events (accepted_candidate paused0) [KEYDOWN K_LEFT] (next_direction paused0) = None
   \<and> handle_events [KEYDOWN K_r] (paused1\<lparr>last_tick_ms := 300\<rparr>) =
      Done (paused1\<lparr>last_tick_ms := 300, restart_requested := True\<rparr>)
   \<and> paused (paused1\<lparr>last_tick_ms := 300, restart_requested := True\<rparr>)
   \<and> frame rng0 300 [KEYDOWN K_r] paused1 =
      Some (Break (paused1\<lparr>last_tick_ms := 300, restart_requested := True\<rparr>))"
proof -
  have e1: "handle_events [KEYDOWN K_LEFT, KEYDOWN K_UP] (paused0\<lparr>last_tick_ms := 300\<rparr>) =
      Done (paused0\<lparr>last_tick_ms := 300, next_direction := Some (0, -1)\<rparr>)"
    by (simp add: handle_event_def handle_direction_def Let_def paused0_def round0_def
        grid_consts)
  have p1: "paused (paused0\<lparr>last_tick_ms := 300, next_direction := Some (0, -1)\<rparr>)"
    by (simp add: paused0_def)
  have r1: "\<not> restart_requested (paused0\<lparr>last_tick_ms := 300, next_direction := Some (0, -1)\<rparr>)"
    by (simp add: paused0_def round0_def)
  from paused_frame [OF e1 p1, of rng0 0, THEN conjunct1] r1
  have f1: "frame rng0 300 [KEYDOWN K_LEFT, KEYDOWN K_UP] paused0 =
      Some (Next (paused0\<lparr>last_tick_ms := 300, next_direction := Some (0, -1)\<rparr>))"
    by (simp only: if_False)
  have b1: "buffer_events (accepted_candidate paused0) [KEYDOWN K_LEFT, KEYDOWN K_UP]
        (next_direction paused0) = Some (0, -1)"
    by (simp add: accepted_candidate_def paused0_def round0_def in_grid_def grid_consts)
  have b2: "buffer_events (accepted_candidate paused0) [KEYDOWN K_LEFT] (next_direction paused0) = None"
    by (simp add: accepted_candidate_def paused0_def round0_def in_grid_def grid_consts)
  have e2: "handle_events [KEYDOWN K_r] (paused1\<lparr>last_tick_ms := 300\<rparr>) =
      Done (paused1\<lparr>last_tick_ms := 300, restart_requested := True\<rparr>)"
    by (simp add: handle_event_def)
  have p2: "paused (paused1\<lparr>last_tick_ms := 300, restart_requested := True\<rparr>)"
    by (simp add: paused1_def)
  have r2: "restart_requested (paused1\<lparr>last_tick_ms := 300, restart_requested := True\<rparr>)"
    by simp
  from paused_frame [OF e2 p2, of rng0 0, THEN conjunct1] r2
  have f2: "frame rng0 300 [KEYDOWN K_r] paused1 =
      Some (Break (paused1\<lparr>last_tick_ms := 300, restart_requested := True\<rparr>))"
    by (simp only: if_True)
  from reachable_paused0 e1 p1 f1 b1 b2 e2 p2 f2 show ?thesis by (intro conjI) blast+
qed

end
